theory Spec2Isabelle
  imports Main "HOL-Library.Word"
begin

section \<open>JavaScript strings\<close>

text \<open>
  A JavaScript string is a sequence of 16-bit code units; \<open>length\<close>, \<open>match.index\<close>,
  \<open>' '.repeat(n)\<close> and the offsets of the editor all count code units.
\<close>

type_synonym cu = "16 word"
type_synonym jsstring = "cu list"

abbreviation TAB :: cu where "TAB \<equiv> 0x09"
abbreviation LF :: cu where "LF \<equiv> 0x0A"
abbreviation CR :: cu where "CR \<equiv> 0x0D"
abbreviation SPACE :: cu where "SPACE \<equiv> 0x20"
abbreviation APOSTROPHE :: cu where "APOSTROPHE \<equiv> 0x27"
abbreviation BACKTICK :: cu where "BACKTICK \<equiv> 0x60"
abbreviation CURLY_APOSTROPHE :: cu where "CURLY_APOSTROPHE \<equiv> 0x2019"

text \<open>An ASCII literal of the source as a JavaScript string.\<close>

definition js :: "string \<Rightarrow> jsstring" where
  "js = map (\<lambda>c. of_nat (of_char c))"

text \<open>\<open>S.substring(from, to)\<close> for \<open>from \<le> to\<close>; both ends are clamped to the length.\<close>

definition substring :: "jsstring \<Rightarrow> nat \<Rightarrow> nat \<Rightarrow> jsstring" where
  "substring S from to = take (to - from) (drop from S)"

section \<open>Regular expressions of ECMAScript\<close>

subsection \<open>Character classes\<close>

definition isLineTerminator :: "cu \<Rightarrow> bool" where
  "isLineTerminator c = (c = LF \<or> c = CR \<or> c = 0x2028 \<or> c = 0x2029)"

definition isWhiteSpace :: "cu \<Rightarrow> bool" where
  "isWhiteSpace c =
     (c = TAB \<or> c = 0x0B \<or> c = 0x0C \<or> c = SPACE \<or> c = 0xA0 \<or> c = 0x1680 \<or>
      (0x2000 \<le> c \<and> c \<le> 0x200A) \<or> c = 0x202F \<or> c = 0x205F \<or> c = 0x3000 \<or> c = 0xFEFF)"

text \<open>\<open>\s\<close>, \<open>\S\<close>, \<open>\d\<close>, \<open>.\<close> (without the s flag) and \<open>[\s\S]\<close>.\<close>

definition cls_s :: "cu \<Rightarrow> bool" where
  "cls_s c = (isWhiteSpace c \<or> isLineTerminator c)"

definition cls_S :: "cu \<Rightarrow> bool" where
  "cls_S c = (\<not> cls_s c)"

definition cls_d :: "cu \<Rightarrow> bool" where
  "cls_d c = (0x30 \<le> c \<and> c \<le> 0x39)"

definition cls_dot :: "cu \<Rightarrow> bool" where
  "cls_dot c = (\<not> isLineTerminator c)"

definition cls_any :: "cu \<Rightarrow> bool" where
  "cls_any c = True"

definition cls_upper :: "cu \<Rightarrow> bool" where
  "cls_upper c = (0x41 \<le> c \<and> c \<le> 0x5A)"

definition cls_lower :: "cu \<Rightarrow> bool" where
  "cls_lower c = (0x61 \<le> c \<and> c \<le> 0x7A)"

text \<open>A literal character, and a literal letter under the i flag (given in lower case).\<close>

definition lit :: "cu \<Rightarrow> cu \<Rightarrow> bool" where
  "lit x c = (c = x)"

definition lit_i :: "cu \<Rightarrow> cu \<Rightarrow> bool" where
  "lit_i x c = (c = x \<or> c + 0x20 = x)"

subsection \<open>Patterns and their backtracking matchers\<close>

text \<open>
  The fragment of the pattern language the source's literals use: single code units of a
  class, sequence, disjunction, and the greedy and lazy star of a class. The other
  quantifiers are written with them: \<open>c+\<close> is \<open>c c*\<close>, \<open>c{3}\<close> is \<open>c c c\<close>,
  \<open>c?\<close> is \<open>c|\<close>(empty).
\<close>

datatype pattern =
    Chr "cu \<Rightarrow> bool"
  | Empty
  | Seq pattern pattern
  | Alt pattern pattern
  | Star "cu \<Rightarrow> bool"
  | LazyStar "cu \<Rightarrow> bool"

text \<open>
  ECMAScript gives a pattern its meaning as a matcher that takes the input still to read
  and a continuation for the rest of the pattern; a failed continuation makes the matcher
  try its next choice. A greedy star first tries one more code unit, a lazy star first
  tries the continuation.
\<close>

fun starGreedy :: "(cu \<Rightarrow> bool) \<Rightarrow> (jsstring \<Rightarrow> 'a option) \<Rightarrow> jsstring \<Rightarrow> 'a option" where
  "starGreedy p k [] = k []"
| "starGreedy p k (c # cs) =
     (if p c then (case starGreedy p k cs of Some r \<Rightarrow> Some r | None \<Rightarrow> k (c # cs))
      else k (c # cs))"

fun starLazy :: "(cu \<Rightarrow> bool) \<Rightarrow> (jsstring \<Rightarrow> 'a option) \<Rightarrow> jsstring \<Rightarrow> 'a option" where
  "starLazy p k [] = k []"
| "starLazy p k (c # cs) =
     (case k (c # cs) of Some r \<Rightarrow> Some r
      | None \<Rightarrow> if p c then starLazy p k cs else None)"

primrec compile :: "pattern \<Rightarrow> (jsstring \<Rightarrow> 'a option) \<Rightarrow> jsstring \<Rightarrow> 'a option" where
  "compile (Chr p) k s = (case s of [] \<Rightarrow> None | c # cs \<Rightarrow> if p c then k cs else None)"
| "compile Empty k s = k s"
| "compile (Seq a b) k s = compile a (compile b k) s"
| "compile (Alt a b) k s = (case compile a k s of Some r \<Rightarrow> Some r | None \<Rightarrow> compile b k s)"
| "compile (Star p) k s = starGreedy p k s"
| "compile (LazyStar p) k s = starLazy p k s"

text \<open>
  The matcher of a pattern tried at offset \<open>i\<close> of \<open>S\<close>: the number of code units of the
  match, if there is one.
\<close>

definition matcherOf :: "pattern \<Rightarrow> jsstring \<Rightarrow> nat \<Rightarrow> nat option" where
  "matcherOf p S i =
     (case compile p (\<lambda>rest. Some (length rest)) (drop i S) of
        None \<Rightarrow> None
      | Some l \<Rightarrow> Some (length S - i - l))"

fun chars :: "cu list \<Rightarrow> pattern" where
  "chars [] = Empty"
| "chars [c] = Chr (lit c)"
| "chars (c # cs) = Seq (Chr (lit c)) (chars cs)"

fun chars_i :: "cu list \<Rightarrow> pattern" where
  "chars_i [] = Empty"
| "chars_i [c] = Chr (lit_i c)"
| "chars_i (c # cs) = Seq (Chr (lit_i c)) (chars_i cs)"

fun seqs :: "pattern list \<Rightarrow> pattern" where
  "seqs [] = Empty"
| "seqs [p] = p"
| "seqs (p # ps) = Seq p (seqs ps)"

fun alts :: "pattern list \<Rightarrow> pattern" where
  "alts [] = Empty"
| "alts [p] = p"
| "alts (p # ps) = Alt p (alts ps)"

definition oneOrMore :: "(cu \<Rightarrow> bool) \<Rightarrow> pattern" where
  "oneOrMore p = Seq (Chr p) (Star p)"

subsection \<open>RegExp objects, exec and replace\<close>

text \<open>
  A RegExp object, as far as \<open>replace\<close> and \<open>matchAll\<close> read it: its matcher (the pattern
  with the flags i, m and s), the flags g, y and u, and \<open>lastIndex\<close>. A user-supplied
  expression is any such object; \<open>matcher r S i = Some n\<close> says that the pattern, tried at
  offset \<open>i\<close>, matches \<open>S[i .. i+n)\<close>.
\<close>

record regex =
  matcher :: "jsstring \<Rightarrow> nat \<Rightarrow> nat option"
  global :: bool
  sticky :: bool
  unicode :: bool
  lastIndex :: nat

definition isLeadingSurrogate :: "cu \<Rightarrow> bool" where
  "isLeadingSurrogate c = (0xD800 \<le> c \<and> c \<le> 0xDBFF)"

definition isTrailingSurrogate :: "cu \<Rightarrow> bool" where
  "isTrailingSurrogate c = (0xDC00 \<le> c \<and> c \<le> 0xDFFF)"

definition AdvanceStringIndex :: "jsstring \<Rightarrow> nat \<Rightarrow> bool \<Rightarrow> nat" where
  "AdvanceStringIndex S index fullUnicode =
     (if \<not> fullUnicode then index + 1
      else if index + 1 \<ge> length S then index + 1
      else if isLeadingSurrogate (S ! index) \<and> isTrailingSurrogate (S ! (index + 1))
        then index + 2
      else index + 1)"

text \<open>
  RegExpBuiltinExec from a given \<open>lastIndex\<close>: the first offset at or after it where the
  matcher succeeds (only \<open>lastIndex\<close> itself for a sticky expression), with the matched
  substring.
\<close>

function RegExpBuiltinExec :: "regex \<Rightarrow> jsstring \<Rightarrow> nat \<Rightarrow> (nat \<times> jsstring) option" where
  "RegExpBuiltinExec R S li =
     (if li > length S then None
      else case matcher R S li of
          Some n \<Rightarrow> Some (li, substring S li (li + n))
        | None \<Rightarrow>
            if sticky R then None
            else RegExpBuiltinExec R S (AdvanceStringIndex S li (unicode R)))"
  by pat_completeness auto
termination
  by (relation "measure (\<lambda>(R, S, li). Suc (length S) - li)")
     (auto simp: AdvanceStringIndex_def)

text \<open>
  The loop of \<open>RegExp.prototype[@@replace]\<close> and of the \<open>matchAll\<close> iterator: exec until
  it fails, once only without the g flag; after an empty match \<open>lastIndex\<close> is advanced.
\<close>

function collectMatches :: "regex \<Rightarrow> jsstring \<Rightarrow> nat \<Rightarrow> (nat \<times> jsstring) list" where
  "collectMatches R S li =
     (case RegExpBuiltinExec R S li of
        None \<Rightarrow> []
      | Some (index, matched) \<Rightarrow>
          (index, matched) #
          (if global R
           then collectMatches R S
                  (if matched = [] then AdvanceStringIndex S (index + length matched) (unicode R)
                   else index + length matched)
           else []))"
  by pat_completeness auto
termination
proof (relation "measure (\<lambda>(R, S, li). Suc (length S) - li)")
  show "wf (measure (\<lambda>(R, S, li). Suc (length S) - li))"
    by simp
next
  fix R :: regex and S :: jsstring and li :: nat and x2 index matched
  assume ex: "RegExpBuiltinExec R S li = Some x2" and x2: "(index, matched) = x2"
  have bounds: "li \<le> i \<and> i \<le> length S" if "RegExpBuiltinExec R S li = Some (i, m)" for i m
    using that
  proof (induction R S li rule: RegExpBuiltinExec.induct)
    case (1 R S li)
    show ?case
    proof (cases "matcher R S li")
      case None
      with "1.prems" have notsticky: "\<not> sticky R" and le: "\<not> li > length S"
        and rec: "RegExpBuiltinExec R S (AdvanceStringIndex S li (unicode R)) = Some (i, m)"
        by (auto split: if_splits)
      from "1.IH" [OF le None notsticky rec]
      have "AdvanceStringIndex S li (unicode R) \<le> i \<and> i \<le> length S" .
      moreover have "li \<le> AdvanceStringIndex S li (unicode R)"
        by (simp add: AdvanceStringIndex_def)
      ultimately show ?thesis by simp
    next
      case (Some n)
      with "1.prems" show ?thesis by (auto split: if_splits)
    qed
  qed
  from ex x2 have "li \<le> index \<and> index \<le> length S"
    using bounds [of index matched] by simp
  moreover have "index < AdvanceStringIndex S index (unicode R)"
    by (simp add: AdvanceStringIndex_def)
  ultimately
  show "((R, S, if matched = [] then AdvanceStringIndex S (index + length matched) (unicode R)
                else index + length matched), R, S, li)
        \<in> measure (\<lambda>(R, S, li). Suc (length S) - li)"
    by (cases matched) auto
qed

declare RegExpBuiltinExec.simps [simp del]
declare collectMatches.simps [simp del]

text \<open>
  The second half of \<open>replace\<close>: the pieces of \<open>S\<close> between the matches, and the value of
  the replacer function for each match.
\<close>

fun assemble :: "jsstring \<Rightarrow> (jsstring \<Rightarrow> jsstring) \<Rightarrow> (nat \<times> jsstring) list \<Rightarrow> nat \<Rightarrow> jsstring" where
  "assemble S f [] nextSourcePosition = drop nextSourcePosition S"
| "assemble S f ((position, matched) # results) nextSourcePosition =
     (if position \<ge> nextSourcePosition
      then substring S nextSourcePosition position @ f matched @
           assemble S f results (position + length matched)
      else assemble S f results nextSourcePosition)"

text \<open>
  Where exec starts: \<open>replace\<close> resets \<open>lastIndex\<close> of a global expression, and exec reads
  \<open>lastIndex\<close> only with the g or y flag.
\<close>

definition startIndex :: "regex \<Rightarrow> nat" where
  "startIndex R = (if global R then 0 else if sticky R then lastIndex R else 0)"

definition allMatches :: "regex \<Rightarrow> jsstring \<Rightarrow> (nat \<times> jsstring) list" where
  "allMatches R S = collectMatches R S (startIndex R)"

definition String_replace :: "jsstring \<Rightarrow> regex \<Rightarrow> (jsstring \<Rightarrow> jsstring) \<Rightarrow> jsstring" where
  "String_replace S R f = assemble S f (allMatches R S) 0"

text \<open>A literal \<open>/p/g\<close> (the flag i is in the pattern).\<close>

definition literal_g :: "pattern \<Rightarrow> regex" where
  "literal_g p = \<lparr>matcher = matcherOf p, global = True, sticky = False, unicode = False,
     lastIndex = 0\<rparr>"

section \<open>utils/textProcessing\<close>

text \<open>
  \<^verbatim>\<open>DEFAULT_REMOVAL_PATTERNS\<close>, in the order of the source: front matter, \<^verbatim>\<open>&nbsp;\<close>,
  citations, attribute braces, fenced code, inline code, image and file links, URLs,
  e-mail addresses.
\<close>

definition cls_alnum :: "cu \<Rightarrow> bool" where
  "cls_alnum c = (cls_upper c \<or> cls_lower c \<or> cls_d c)"

definition rx_frontMatter :: pattern where
  "rx_frontMatter =
     seqs [chars (js ''---''), LazyStar cls_any, Chr (lit LF),
           Alt (chars (js ''...'')) (chars (js ''---''))]"

definition rx_nbsp :: pattern where
  "rx_nbsp = chars (js ''&nbsp;'')"

definition rx_citation :: pattern where
  "rx_citation =
     seqs [Chr (lit 0x5B), Alt (Chr (lit 0x2D)) Empty, Chr (lit 0x40),
           Star (\<lambda>c. cls_alnum c \<or> c = 0x3A \<or> c = 0x2D), Chr (lit 0x5D)]"

definition rx_attribute :: pattern where
  "rx_attribute =
     seqs [Chr (lit 0x7B), Alt (Chr (lit 0x23)) (Chr (lit 0x2E)),
           oneOrMore (\<lambda>c. cls_alnum c \<or> c = 0x3A), Chr (lit 0x7D)]"

definition rx_fencedCode :: pattern where
  "rx_fencedCode =
     seqs [chars [BACKTICK, BACKTICK, BACKTICK], LazyStar cls_any,
           chars [BACKTICK, BACKTICK, BACKTICK]]"

definition rx_inlineCode :: pattern where
  "rx_inlineCode = seqs [Chr (lit BACKTICK), oneOrMore (\<lambda>c. c \<noteq> BACKTICK), Chr (lit BACKTICK)]"

definition rx_fileLink :: pattern where
  "rx_fileLink =
     seqs [Chr (lit 0x28), Star cls_dot, Chr (lit 0x2E),
           alts [chars_i (js ''jpg''), chars_i (js ''jpeg''), chars_i (js ''png''),
                 chars_i (js ''md''), chars_i (js ''gif''), chars_i (js ''pdf''),
                 chars_i (js ''svg'')],
           Chr (lit 0x29)]"

definition rx_url :: pattern where
  "rx_url =
     seqs [alts [chars (js ''http''), chars (js ''https''), chars (js ''ftp''),
                 chars (js ''git'')],
           Star cls_S]"

definition rx_email :: pattern where
  "rx_email =
     seqs [oneOrMore (\<lambda>c. cls_alnum c \<or> c = 0x2E \<or> c = 0x2D), Chr (lit 0x40),
           oneOrMore (\<lambda>c. cls_lower c \<or> c = 0x2E)]"

definition DEFAULT_REMOVAL_PATTERNS :: "regex list" where
  "DEFAULT_REMOVAL_PATTERNS =
     map literal_g [rx_frontMatter, rx_nbsp, rx_citation, rx_attribute, rx_fencedCode,
       rx_inlineCode, rx_fileLink, rx_url, rx_email]"

record SanitizeOptions =
  removalPatterns :: "regex list option"
  userPatterns :: "regex list option"

definition replaceWithSpaces :: "jsstring \<Rightarrow> regex \<Rightarrow> jsstring" where
  "replaceWithSpaces input R = String_replace input R (\<lambda>matched. replicate (length matched) SPACE)"

text \<open>The last line of \<open>sanitizeText\<close>, \<^verbatim>\<open>processed.replace(/\t/g, ' ')\<close>.\<close>

definition tabsToSpaces :: "jsstring \<Rightarrow> jsstring" where
  "tabsToSpaces = map (\<lambda>c. if c = TAB then SPACE else c)"

definition patternsOf :: "SanitizeOptions \<Rightarrow> regex list" where
  "patternsOf options =
     (case removalPatterns options of None \<Rightarrow> DEFAULT_REMOVAL_PATTERNS | Some ps \<Rightarrow> ps) @
     (case userPatterns options of None \<Rightarrow> [] | Some ps \<Rightarrow> ps)"

definition sanitizeText :: "jsstring \<Rightarrow> SanitizeOptions \<Rightarrow> jsstring" where
  "sanitizeText text options =
     tabsToSpaces (foldl replaceWithSpaces text (patternsOf options))"


text \<open>
  The offsets a chain of expressions blanks: \<open>inSpan R S j\<close> when offset \<open>j\<close> lies in a span
  that \<open>R\<close> matches in \<open>S\<close>, and \<open>blanked Rs S j\<close> when it lies in a span matched by one of
  \<open>Rs\<close>, each applied to the text the expressions before it have left.
\<close>

definition covered :: "(nat \<times> jsstring) list \<Rightarrow> nat \<Rightarrow> bool" where
  "covered ms j = list_ex (\<lambda>(i, m). i \<le> j \<and> j < i + length m) ms"

definition inSpan :: "regex \<Rightarrow> jsstring \<Rightarrow> nat \<Rightarrow> bool" where
  "inSpan R S j = covered (allMatches R S) j"


text \<open>Matches in reading order, each inside \<open>S\<close> and equal to the substring at its index.\<close>

fun spans_ok :: "jsstring \<Rightarrow> nat \<Rightarrow> (nat \<times> jsstring) list \<Rightarrow> bool" where
  "spans_ok S lo [] = True"
| "spans_ok S lo ((i, m) # ms) =
     (lo \<le> i \<and> i + length m \<le> length S \<and> m = substring S i (i + length m) \<and>
      spans_ok S (i + length m) ms)"

section \<open>services/SpellService\<close>

datatype DictionaryCode = en_US | en_GB_ize | en_GB_ise | es_ANY | fr | el_GR | sv_SE

fun codeName :: "DictionaryCode \<Rightarrow> jsstring" where
  "codeName en_US = js ''en_US''"
| "codeName en_GB_ize = js ''en_GB-ize''"
| "codeName en_GB_ise = js ''en_GB-ise''"
| "codeName es_ANY = js ''es_ANY''"
| "codeName fr = js ''fr''"
| "codeName el_GR = js ''el_GR''"
| "codeName sv_SE = js ''sv_SE''"

text \<open>
  What the source throws: a rejected \<open>readFile\<close>, an exception of the hunspell parser,
  the \<open>Error\<close> of \<open>assertReady\<close>, and an exception of the backing checker.
\<close>

datatype error = IOError | ParseError | NotLoaded | CheckerError

text \<open>
  A parsed dictionary in use by the backing \<open>SpellChecker\<close>: its \<open>check\<close>, and its
  \<open>suggest\<close>, which may throw or return a falsy value instead of an array.
\<close>

datatype suggestions = Throws | Nullish | Words "jsstring list"

record dictionary =
  dict_check :: "jsstring \<Rightarrow> bool"
  dict_suggest :: "jsstring \<Rightarrow> suggestions"

type_synonym buffer = "8 word list"

record SpellService =
  spellChecker :: "dictionary option"
  loadedLanguage :: "DictionaryCode option"

definition new_SpellService :: SpellService where
  "new_SpellService = \<lparr>spellChecker = None, loadedLanguage = None\<rparr>"

section \<open>The host: file system, hunspell parser, editor\<close>

record TextDocument =
  uri :: jsstring
  scheme :: jsstring
  languageId :: jsstring
  fileName :: jsstring
  getText :: jsstring

text \<open>
  What the extension reads from Node and the editor when a handler runs: files, the
  parser of \<open>hunspell-spellchecker\<close>, the \<open>RegExp\<close> constructor applied to an entry of
  \<open>ignoreRegExp\<close> (\<open>None\<close> when it throws), \<open>path.extname\<close>, \<open>path.basename\<close>,
  \<open>Date.now()\<close> and the document of the active editor.
\<close>

record host =
  readFile :: "jsstring \<Rightarrow> buffer option"
  parse :: "buffer \<Rightarrow> buffer \<Rightarrow> dictionary option"
  newUserRegExp :: "jsstring \<Rightarrow> regex option"
  extname :: "jsstring \<Rightarrow> jsstring"
  basename :: "jsstring \<Rightarrow> jsstring"
  now :: int
  activeTextEditor :: "TextDocument option"

definition path_join :: "jsstring \<Rightarrow> jsstring \<Rightarrow> jsstring" where
  "path_join a b = a @ js ''/'' @ b"

text \<open>
  \<open>load\<close>: the error it rejects with, if any, and the service afterwards. Nothing is
  assigned before both files are read and parsed.
\<close>

definition load :: "host \<Rightarrow> DictionaryCode \<Rightarrow> jsstring \<Rightarrow> SpellService \<Rightarrow> error option \<times> SpellService" where
  "load h language extensionRoot svc =
     (let dictionaryFolder = path_join extensionRoot (js ''languages'');
          affPath = path_join dictionaryFolder (codeName language @ js ''.aff'');
          dicPath = path_join dictionaryFolder (codeName language @ js ''.dic'')
      in case (readFile h affPath, readFile h dicPath) of
           (Some aff, Some dic) \<Rightarrow>
             (case parse h aff dic of
                None \<Rightarrow> (Some ParseError, svc)
              | Some dict \<Rightarrow>
                  (None, svc\<lparr>spellChecker := Some dict, loadedLanguage := Some language\<rparr>))
         | _ \<Rightarrow> (Some IOError, svc))"

definition isReady :: "SpellService \<Rightarrow> bool" where
  "isReady svc = (loadedLanguage svc \<noteq> None)"

definition getLanguage :: "SpellService \<Rightarrow> DictionaryCode option" where
  "getLanguage svc = loadedLanguage svc"

definition assertReady :: "SpellService \<Rightarrow> error + unit" where
  "assertReady svc = (if loadedLanguage svc = None then Inl NotLoaded else Inr ())"

definition check :: "SpellService \<Rightarrow> jsstring \<Rightarrow> error + bool" where
  "check svc word =
     (case assertReady svc of
        Inl e \<Rightarrow> Inl e
      | Inr _ \<Rightarrow>
          (case spellChecker svc of
             None \<Rightarrow> Inl CheckerError
           | Some d \<Rightarrow> Inr (dict_check d word)))"

text \<open>\<open>array.slice(0, limit)\<close>: a negative limit counts from the end.\<close>

definition slice0 :: "'a list \<Rightarrow> int \<Rightarrow> 'a list" where
  "slice0 xs limit =
     (if limit < 0 then take (nat (int (length xs) + limit)) xs else take (nat limit) xs)"

definition suggest :: "SpellService \<Rightarrow> jsstring \<Rightarrow> int \<Rightarrow> error + jsstring list" where
  "suggest svc word limit =
     (case assertReady svc of
        Inl e \<Rightarrow> Inl e
      | Inr _ \<Rightarrow>
          (case spellChecker svc of
             None \<Rightarrow> Inl CheckerError
           | Some d \<Rightarrow>
               (case dict_suggest d word of
                  Throws \<Rightarrow> Inl CheckerError
                | Nullish \<Rightarrow> Inr (slice0 [] limit)
                | Words ws \<Rightarrow> Inr (slice0 ws limit))))"

text \<open>Loading one language after the other, as the provider does over its life.\<close>

fun loads :: "host \<Rightarrow> jsstring \<Rightarrow> DictionaryCode list \<Rightarrow> SpellService \<Rightarrow> SpellService" where
  "loads h extensionRoot [] svc = svc"
| "loads h extensionRoot (language # ls) svc =
     loads h extensionRoot ls (snd (load h language extensionRoot svc))"

definition loadFails :: "host \<Rightarrow> jsstring \<Rightarrow> DictionaryCode \<Rightarrow> bool" where
  "loadFails h extensionRoot language =
     (fst (load h language extensionRoot new_SpellService) \<noteq> None)"

section \<open>features/SpellCheckerProvider\<close>

datatype SeverityOption = Option_Error | Option_Hint | Option_Information | Option_Warning

datatype DiagnosticSeverity =
  Severity_Error | Severity_Warning | Severity_Information | Severity_Hint

record SpellSettings =
  language :: DictionaryCode
  ignoreWordsList :: "jsstring list"
  documentTypes :: "jsstring list"
  ignoreRegExp :: "jsstring list"
  ignoreFileExtensions :: "jsstring list"
  ignoreFilenames :: "jsstring list"
  checkInterval :: int
  suggestionSeverity :: SeverityOption
  autoCheck :: bool
  maxDiagnostics :: int
  suggestionLimit :: int

definition DEFAULT_SETTINGS :: SpellSettings where
  "DEFAULT_SETTINGS =
     \<lparr>language = en_US, ignoreWordsList = [],
      documentTypes = [js ''markdown'', js ''latex'', js ''plaintext''],
      ignoreRegExp = [], ignoreFileExtensions = [], ignoreFilenames = [],
      checkInterval = 3000, suggestionSeverity = Option_Warning, autoCheck = True,
      maxDiagnostics = 250, suggestionLimit = 5\<rparr>"

text \<open>
  A diagnostic. Its range is kept as the pair of document offsets that \<open>positionAt\<close> was
  given (clamped to the document, as \<open>positionAt\<close> does); \<open>d_code\<close> is \<open>None\<close> for a
  diagnostic of another extension whose code is not a string.
\<close>

record Diagnostic =
  d_range :: "nat \<times> nat"
  d_message :: jsstring
  d_severity :: DiagnosticSeverity
  d_source :: jsstring
  d_code :: "jsstring option"

text \<open>What the provider shows: status bar messages and error messages.\<close>

datatype message =
    OverLimit int
  | LoadFailed DictionaryCode error

text \<open>
  The pending timeout holds the document of the change event that armed it and its
  delay.
\<close>

record Provider =
  spellService :: SpellService
  diagnosticMap :: "jsstring \<rightharpoonup> Diagnostic list"
  settings :: SpellSettings
  extensionRoot :: jsstring
  lastcheck :: int
  timer :: "(TextDocument \<times> int) option"
  timerTextDocument :: "TextDocument option"
  autoCheckEnabled :: bool
  statusBarMessages :: "message list"
  errorMessages :: "message list"

definition new_Provider :: Provider where
  "new_Provider =
     \<lparr>spellService = new_SpellService, diagnosticMap = Map.empty,
      settings = DEFAULT_SETTINGS, extensionRoot = [], lastcheck = - 1, timer = None,
      timerTextDocument = None, autoCheckEnabled = True, statusBarMessages = [],
      errorMessages = []\<rparr>"

definition loadDictionary :: "host \<Rightarrow> DictionaryCode \<Rightarrow> Provider \<Rightarrow> Provider" where
  "loadDictionary h lang p =
     (case load h lang (extensionRoot p) (spellService p) of
        (None, svc) \<Rightarrow> p\<lparr>spellService := svc\<rparr>
      | (Some e, svc) \<Rightarrow>
          p\<lparr>spellService := svc, errorMessages := errorMessages p @ [LoadFailed lang e]\<rparr>)"

definition shouldCheck :: "host \<Rightarrow> Provider \<Rightarrow> TextDocument \<Rightarrow> bool" where
  "shouldCheck h p document =
     (if \<not> isReady (spellService p) then False
      else if scheme document \<noteq> js ''file'' then False
      else if languageId document \<notin> set (documentTypes (settings p)) then False
      else if extname h (fileName document) \<in> set (ignoreFileExtensions (settings p))
        then False
      else if basename h (fileName document) \<in> set (ignoreFilenames (settings p))
        then False
      else True)"

definition getUserRegexps :: "host \<Rightarrow> SpellSettings \<Rightarrow> regex list" where
  "getUserRegexps h st = List.map_filter (newUserRegExp h) (ignoreRegExp st)"

definition getSeverity :: "SpellSettings \<Rightarrow> DiagnosticSeverity" where
  "getSeverity st =
     (case suggestionSeverity st of
        Option_Error \<Rightarrow> Severity_Error
      | Option_Hint \<Rightarrow> Severity_Hint
      | Option_Information \<Rightarrow> Severity_Information
      | Option_Warning \<Rightarrow> Severity_Warning)"

text \<open>\<^verbatim>\<open>document.getText().replace(/\r?\n/g, '\n')\<close>\<close>

fun normalizeEol :: "jsstring \<Rightarrow> jsstring" where
  "normalizeEol (c # d # rest) =
     (if c = CR \<and> d = LF then LF # normalizeEol rest else c # normalizeEol (d # rest))"
| "normalizeEol cs = cs"


text \<open>\<^verbatim>\<open>/[A-Za-z][A-Za-z'<U+2019>]{3,}/g\<close>, the curly apostrophe being U+2019.\<close>

definition cls_letter :: "cu \<Rightarrow> bool" where
  "cls_letter c = (cls_upper c \<or> cls_lower c)"

definition cls_wordChar :: "cu \<Rightarrow> bool" where
  "cls_wordChar c = (cls_letter c \<or> c = APOSTROPHE \<or> c = CURLY_APOSTROPHE)"

definition wordRegex :: regex where
  "wordRegex =
     literal_g (seqs [Chr cls_letter, Chr cls_wordChar, Chr cls_wordChar, Chr cls_wordChar,
                      Star cls_wordChar])"

text \<open>\<^verbatim>\<open>originalWord.replace(/<U+2019>/g, '\'')\<close> and \<^verbatim>\<open>/\d/.test(normalizedWord)\<close>\<close>

definition normalizeWord :: "jsstring \<Rightarrow> jsstring" where
  "normalizeWord = map (\<lambda>c. if c = CURLY_APOSTROPHE then APOSTROPHE else c)"

definition containsDigit :: "jsstring \<Rightarrow> bool" where
  "containsDigit w = list_ex cls_d w"

definition positionAt :: "TextDocument \<Rightarrow> nat \<Rightarrow> nat" where
  "positionAt document offset = min offset (length (getText document))"

definition newDiagnostic :: "SpellSettings \<Rightarrow> TextDocument \<Rightarrow> nat \<Rightarrow> jsstring \<Rightarrow> Diagnostic" where
  "newDiagnostic st document index originalWord =
     \<lparr>d_range = (positionAt document index,
                 positionAt document (index + length originalWord)),
      d_message = js ''Spelling: '' @ normalizeWord originalWord,
      d_severity = getSeverity st,
      d_source = js ''Spell Checker'',
      d_code = Some (normalizeWord originalWord)\<rparr>"

text \<open>
  The state of the loop of \<open>doSpellCheck\<close>: the diagnostics pushed, the tokens counted,
  and the status bar messages set.
\<close>

record pass =
  diagnostics :: "Diagnostic list"
  processedTokens :: nat
  notices :: "message list"

definition pass0 :: pass where
  "pass0 = \<lparr>diagnostics = [], processedTokens = 0, notices = []\<rparr>"

text \<open>
  The loop over the matches of \<open>wordRegex\<close>. A \<open>continue\<close> goes to the next match without
  reaching the test of \<open>processedTokens\<close> at the end of the body; an exception of
  \<open>check\<close> leaves the loop and the function.
\<close>

fun scanTokens ::
  "SpellSettings \<Rightarrow> SpellService \<Rightarrow> TextDocument \<Rightarrow> (nat \<times> jsstring) list \<Rightarrow> pass \<Rightarrow> error + pass"
where
  "scanTokens st svc document [] ps = Inr ps"
| "scanTokens st svc document ((index, originalWord) # rest) ps =
     (let ps1 = ps\<lparr>processedTokens := processedTokens ps + 1\<rparr>;
          normalizedWord = normalizeWord originalWord
      in if containsDigit normalizedWord then scanTokens st svc document rest ps1
         else if normalizedWord \<in> set (ignoreWordsList st)
           then scanTokens st svc document rest ps1
         else
           (case check svc normalizedWord of
              Inl e \<Rightarrow> Inl e
            | Inr ok \<Rightarrow>
                if \<not> ok then
                  (let ps2 = ps1\<lparr>diagnostics := diagnostics ps1 @
                               [newDiagnostic st document index originalWord]\<rparr>
                   in if int (length (diagnostics ps2)) \<ge> maxDiagnostics st
                        then Inr (ps2\<lparr>notices := notices ps2 @ [OverLimit (maxDiagnostics st)]\<rparr>)
                      else if int (processedTokens ps2) \<ge> maxDiagnostics st * 20
                        then Inr ps2
                      else scanTokens st svc document rest ps2)
                else if int (processedTokens ps1) \<ge> maxDiagnostics st * 20
                  then Inr ps1
                else scanTokens st svc document rest ps1))"

text \<open>The body of \<open>doSpellCheck\<close> from \<open>getText\<close> to the end of the loop.\<close>

definition sanitized :: "host \<Rightarrow> Provider \<Rightarrow> TextDocument \<Rightarrow> jsstring" where
  "sanitized h p document =
     sanitizeText (normalizeEol (getText document))
       \<lparr>removalPatterns = None, userPatterns = Some (getUserRegexps h (settings p))\<rparr>"

definition checkPass :: "host \<Rightarrow> Provider \<Rightarrow> TextDocument \<Rightarrow> error + pass" where
  "checkPass h p document =
     scanTokens (settings p) (spellService p) document
       (allMatches wordRegex (sanitized h p document)) pass0"

definition doSpellCheck :: "host \<Rightarrow> TextDocument option \<Rightarrow> Provider \<Rightarrow> error option \<times> Provider" where
  "doSpellCheck h textDocument p =
     (case (case textDocument of
              Some d \<Rightarrow> Some d
            | None \<Rightarrow> (case activeTextEditor h of
                         Some d \<Rightarrow> Some d
                       | None \<Rightarrow> timerTextDocument p)) of
        None \<Rightarrow> (None, p)
      | Some document \<Rightarrow>
          if fileName document = [] then (None, p)
          else if \<not> shouldCheck h p document then (None, p)
          else
            (case checkPass h p document of
               Inl e \<Rightarrow> (Some e, p)
             | Inr ps \<Rightarrow>
                 (None,
                  p\<lparr>diagnosticMap := (diagnosticMap p)(uri document \<mapsto> diagnostics ps),
                    statusBarMessages := statusBarMessages p @ notices ps,
                    lastcheck := now h\<rparr>)))"

text \<open>The handlers of the editor's events, and the command \<open>spellchecker.checkDocument\<close>.\<close>

definition onDocumentChanged :: "host \<Rightarrow> TextDocument \<Rightarrow> Provider \<Rightarrow> error option \<times> Provider" where
  "onDocumentChanged h document p =
     (if \<not> shouldCheck h p document then (None, p)
      else if checkInterval (settings p) < 0 \<or> \<not> autoCheckEnabled p then (None, p)
      else if now h - lastcheck p > checkInterval (settings p)
        then doSpellCheck h (Some document) (p\<lparr>timer := None\<rparr>)
      else
        (None,
         p\<lparr>timerTextDocument := Some document,
           timer := Some (document, 2 * checkInterval (settings p))\<rparr>))"

definition maybeAutoCheck :: "host \<Rightarrow> TextDocument \<Rightarrow> Provider \<Rightarrow> Provider" where
  "maybeAutoCheck h document p =
     (if checkInterval (settings p) < 0 \<or> \<not> autoCheckEnabled p then p
      else if \<not> shouldCheck h p document then p
      else snd (doSpellCheck h (Some document) p))"

definition checkDocumentCommand :: "host \<Rightarrow> Provider \<Rightarrow> error option \<times> Provider" where
  "checkDocumentCommand h p = doSpellCheck h (activeTextEditor h) p"

datatype event =
    DidOpenTextDocument TextDocument
  | DidSaveTextDocument TextDocument
  | DidChangeTextDocument TextDocument

fun handleEvent :: "host \<Rightarrow> event \<Rightarrow> Provider \<Rightarrow> Provider" where
  "handleEvent h (DidOpenTextDocument document) p = maybeAutoCheck h document p"
| "handleEvent h (DidSaveTextDocument document) p = maybeAutoCheck h document p"
| "handleEvent h (DidChangeTextDocument document) p = snd (onDocumentChanged h document p)"

fun handleEvents :: "(host \<times> event) list \<Rightarrow> Provider \<Rightarrow> Provider" where
  "handleEvents [] p = p"
| "handleEvents ((h, e) # es) p = handleEvents es (handleEvent h e p)"

text \<open>The quick fixes of \<open>provideCodeActions\<close>, by the command each one carries.\<close>

datatype CodeAction =
    ReplaceWith jsstring "nat \<times> nat" jsstring bool
  | Ignore jsstring jsstring
  | AlwaysIgnore jsstring jsstring

definition safeSuggest :: "Provider \<Rightarrow> jsstring \<Rightarrow> jsstring list" where
  "safeSuggest p word =
     (case suggest (spellService p) word (suggestionLimit (settings p)) of
        Inl e \<Rightarrow> []
      | Inr ws \<Rightarrow> ws)"

definition provideCodeActions :: "Provider \<Rightarrow> TextDocument \<Rightarrow> Diagnostic list \<Rightarrow> CodeAction list option" where
  "provideCodeActions p document context_diagnostics =
     (case List.find (\<lambda>d. d_code d \<noteq> None) context_diagnostics of
        None \<Rightarrow> None
      | Some diagnostic \<Rightarrow>
          (case d_code diagnostic of
             None \<Rightarrow> None
           | Some word \<Rightarrow>
               (let suggestions = safeSuggest p word;
                    actions =
                      map (\<lambda>(index, suggestion).
                             ReplaceWith (uri document) (d_range diagnostic) suggestion
                               (index = 0))
                          (enumerate 0 suggestions)
                in Some (actions @
                         [Ignore (uri document) word, AlwaysIgnore (uri document) word]))))"

section \<open>The vocabulary of the proofs about patterns\<close>

text \<open>
  The words a pattern matches, whatever the order in which the matcher tries them; the
  classes a pattern mentions; whether it matches the empty word; the classes a match can
  start with.
\<close>

fun language :: "pattern \<Rightarrow> jsstring \<Rightarrow> bool" where
  "language (Chr q) w = (case w of [c] \<Rightarrow> q c | _ \<Rightarrow> False)"
| "language Empty w = (w = [])"
| "language (Seq a b) w = (\<exists>u v. w = u @ v \<and> language a u \<and> language b v)"
| "language (Alt a b) w = (language a w \<or> language b w)"
| "language (Star q) w = list_all q w"
| "language (LazyStar q) w = list_all q w"

fun classes :: "pattern \<Rightarrow> (cu \<Rightarrow> bool) list" where
  "classes (Chr q) = [q]"
| "classes Empty = []"
| "classes (Seq a b) = classes a @ classes b"
| "classes (Alt a b) = classes a @ classes b"
| "classes (Star q) = [q]"
| "classes (LazyStar q) = [q]"

fun nullable :: "pattern \<Rightarrow> bool" where
  "nullable (Chr q) = False"
| "nullable Empty = True"
| "nullable (Seq a b) = (nullable a \<and> nullable b)"
| "nullable (Alt a b) = (nullable a \<or> nullable b)"
| "nullable (Star q) = True"
| "nullable (LazyStar q) = True"

fun firsts :: "pattern \<Rightarrow> (cu \<Rightarrow> bool) list" where
  "firsts (Chr q) = [q]"
| "firsts Empty = []"
| "firsts (Seq a b) = firsts a @ (if nullable a then firsts b else [])"
| "firsts (Alt a b) = firsts a @ firsts b"
| "firsts (Star q) = [q]"
| "firsts (LazyStar q) = [q]"

text \<open>
  \<open>blankedTo ok F T\<close>: \<open>F\<close> is \<open>T\<close> with some code units, all of them in \<open>ok\<close>, replaced
  by spaces.
\<close>

definition blankOf :: "(cu \<Rightarrow> bool) \<Rightarrow> cu \<Rightarrow> cu \<Rightarrow> bool" where
  "blankOf ok c c' = (c = c' \<or> (c = SPACE \<and> ok c'))"

definition blankedTo :: "(cu \<Rightarrow> bool) \<Rightarrow> jsstring \<Rightarrow> jsstring \<Rightarrow> bool" where
  "blankedTo ok F T = list_all2 (blankOf ok) F T"

text \<open>
  Two adjacent backticks, and the text as the rule for inline code receives it: after the
  five rules before it.
\<close>

fun hasDoubleBacktick :: "jsstring \<Rightarrow> bool" where
  "hasDoubleBacktick (c # d # rest) =
     ((c = BACKTICK \<and> d = BACKTICK) \<or> hasDoubleBacktick (d # rest))"
| "hasDoubleBacktick cs = False"

definition beforeInlineCode :: "jsstring \<Rightarrow> jsstring" where
  "beforeInlineCode text = foldl replaceWithSpaces text (take 5 DEFAULT_REMOVAL_PATTERNS)"

section \<open>An example configuration\<close>

text \<open>
  A host with the files of \<open>en_US\<close> only, whose dictionary rejects every word and whose
  \<open>suggest\<close> throws; the provider after \<open>activate\<close> has loaded \<open>en_US\<close> there; a
  Markdown file with a given content.
\<close>

definition rejectAll :: dictionary where
  "rejectAll = \<lparr>dict_check = (\<lambda>w. False), dict_suggest = (\<lambda>w. Throws)\<rparr>"

definition example_host :: host where
  "example_host =
     \<lparr>readFile = (\<lambda>path. if path = js ''/languages/en_US.aff'' \<or>
                            path = js ''/languages/en_US.dic''
                         then Some [] else None),
      parse = (\<lambda>aff dic. Some rejectAll),
      newUserRegExp = (\<lambda>s. None),
      extname = (\<lambda>f. js ''.md''),
      basename = (\<lambda>f. js ''a.md''),
      now = 1000,
      activeTextEditor = None\<rparr>"

definition example_provider :: Provider where
  "example_provider = loadDictionary example_host en_US new_Provider"

definition example_document :: "jsstring \<Rightarrow> TextDocument" where
  "example_document content =
     \<lparr>uri = js ''file:///a.md'', scheme = js ''file'', languageId = js ''markdown'',
      fileName = js ''/a.md'', getText = content\<rparr>"

section \<open>The sanitizer keeps offsets\<close>

lemma exec_result:
  "RegExpBuiltinExec R S li = Some (i, m) \<Longrightarrow>
     li \<le> i \<and> i \<le> length S \<and> (\<exists>n. matcher R S i = Some n \<and> m = substring S i (i + n))"
proof (induction R S li rule: RegExpBuiltinExec.induct)
  case (1 R S li)
  show ?case
  proof (cases "matcher R S li")
    case None
    with "1.prems" have notsticky: "\<not> sticky R" and le: "\<not> li > length S"
      and rec: "RegExpBuiltinExec R S (AdvanceStringIndex S li (unicode R)) = Some (i, m)"
      by (auto simp: RegExpBuiltinExec.simps [of R S li] split: if_splits)
    from "1.IH" [OF le None notsticky rec]
    have "AdvanceStringIndex S li (unicode R) \<le> i \<and> i \<le> length S \<and>
       (\<exists>n. matcher R S i = Some n \<and> m = substring S i (i + n))" .
    moreover have "li \<le> AdvanceStringIndex S li (unicode R)"
      by (simp add: AdvanceStringIndex_def)
    ultimately show ?thesis by auto
  next
    case (Some n)
    with "1.prems" show ?thesis
      by (auto simp: RegExpBuiltinExec.simps [of R S li] split: if_splits)
  qed
qed

lemma exec_span:
  assumes "RegExpBuiltinExec R S li = Some (i, m)"
  shows "li \<le> i" and "i + length m \<le> length S" and "m = substring S i (i + length m)"
proof -
  from exec_result [OF assms] obtain n where
    b: "li \<le> i" "i \<le> length S" and m: "m = substring S i (i + n)"
    by blast
  show "li \<le> i" by (rule b)
  from m b show "i + length m \<le> length S"
    by (simp add: substring_def)
  from m show "m = substring S i (i + length m)"
    by (simp add: substring_def min_def)
qed

lemma spans_ok_mono: "spans_ok S lo ms \<Longrightarrow> lo' \<le> lo \<Longrightarrow> spans_ok S lo' ms"
  by (cases ms) auto

lemma collectMatches_spans_ok: "spans_ok S li (collectMatches R S li)"
proof (induction R S li rule: collectMatches.induct)
  case (1 R S li)
  show ?case
  proof (cases "RegExpBuiltinExec R S li")
    case None
    then show ?thesis by (simp add: collectMatches.simps [of R S li])
  next
    case (Some x)
    obtain i m where x: "x = (i, m)" by (cases x)
    note ex = Some [unfolded x]
    note sp = exec_span [OF ex]
    show ?thesis
    proof (cases "global R")
      case False
      with ex sp show ?thesis
        by (simp add: collectMatches.simps [of R S li])
    next
      case True
      let ?li' = "if m = [] then AdvanceStringIndex S (i + length m) (unicode R) else i + length m"
      have ih: "spans_ok S ?li' (collectMatches R S ?li')"
        using "1.IH" [OF ex refl True] .
      have "i + length m \<le> ?li'"
        by (simp add: AdvanceStringIndex_def)
      with ih have "spans_ok S (i + length m) (collectMatches R S ?li')"
        by (rule spans_ok_mono)
      with ex sp True show ?thesis
        by (simp add: collectMatches.simps [of R S li])
    qed
  qed
qed

lemma spans_ok_not_covered: "spans_ok S lo ms \<Longrightarrow> j < lo \<Longrightarrow> \<not> covered ms j"
proof (induction ms arbitrary: lo)
  case Nil
  then show ?case by (simp add: covered_def)
next
  case (Cons a ms)
  obtain i m where a: "a = (i, m)" by (cases a)
  from Cons.prems a have "spans_ok S (i + length m) ms" "j < i + length m" "j < i"
    by auto
  with Cons.IH [of "i + length m"] have "\<not> covered ms j" by simp
  with \<open>j < i\<close> a show ?case by (simp add: covered_def)
qed

lemma assemble_length:
  "spans_ok S lo ms \<Longrightarrow> lo \<le> length S \<Longrightarrow> (\<And>m. length (f m) = length m) \<Longrightarrow>
     length (assemble S f ms lo) = length S - lo"
proof (induction ms arbitrary: lo)
  case Nil
  then show ?case by simp
next
  case (Cons a ms)
  obtain i m where a: "a = (i, m)" by (cases a)
  from Cons.prems a have ok: "lo \<le> i" "i + length m \<le> length S" "spans_ok S (i + length m) ms"
    by auto
  from Cons.IH [OF ok(3) ok(2) Cons.prems(3)]
  have "length (assemble S f ms (i + length m)) = length S - (i + length m)" .
  with ok a Cons.prems(3) show ?case
    by (simp add: substring_def)
qed

lemma assemble_nth:
  "spans_ok S lo ms \<Longrightarrow> lo \<le> j \<Longrightarrow> j < length S \<Longrightarrow>
     assemble S (\<lambda>m. replicate (length m) SPACE) ms lo ! (j - lo) =
       (if covered ms j then SPACE else S ! j)"
proof (induction ms arbitrary: lo)
  case Nil
  then show ?case by (simp add: covered_def)
next
  case (Cons a ms)
  obtain i m where a: "a = (i, m)" by (cases a)
  let ?f = "\<lambda>m. replicate (length m) SPACE"
  from Cons.prems a have ok: "lo \<le> i" "i + length m \<le> length S" "spans_ok S (i + length m) ms"
    by auto
  have eq: "assemble S ?f (a # ms) lo =
      substring S lo i @ replicate (length m) SPACE @ assemble S ?f ms (i + length m)"
    using ok a by simp
  have len1: "length (substring S lo i) = i - lo"
    using ok by (simp add: substring_def)
  consider (before) "j < i" | (inside) "i \<le> j" "j < i + length m" | (after) "i + length m \<le> j"
    by linarith
  then show ?case
  proof cases
    case before
    from ok(3) have "\<not> covered ms j"
      by (rule spans_ok_not_covered) (use before in simp)
    with before a have nc: "\<not> covered (a # ms) j"
      by (simp add: covered_def)
    have "j - lo < i - lo"
      using before Cons.prems(2) by simp
    then have "assemble S ?f (a # ms) lo ! (j - lo) = substring S lo i ! (j - lo)"
      using len1 by (simp add: eq nth_append)
    also have "\<dots> = S ! j"
      using before Cons.prems(2,3) by (simp add: substring_def)
    finally show ?thesis using nc by simp
  next
    case inside
    then have c: "covered (a # ms) j"
      using a by (simp add: covered_def)
    have "\<not> j - lo < i - lo" "j - lo - (i - lo) < length m"
      using inside ok(1) by auto
    then have "assemble S ?f (a # ms) lo ! (j - lo) = SPACE"
      using len1 by (simp add: eq nth_append)
    with c show ?thesis by simp
  next
    case after
    then have c: "covered (a # ms) j = covered ms j"
      using a by (auto simp: covered_def)
    have "assemble S ?f (a # ms) lo ! (j - lo) =
        assemble S ?f ms (i + length m) ! (j - (i + length m))"
    proof -
      have "j - lo - (i - lo) - length m = j - (i + length m)"
        using after ok(1) by simp
      moreover have "\<not> j - lo < i - lo" "\<not> j - lo - (i - lo) < length m"
        using after ok(1) by auto
      ultimately show ?thesis
        using len1 by (simp add: eq nth_append)
    qed
    also have "\<dots> = (if covered ms j then SPACE else S ! j)"
      using Cons.IH [OF ok(3) after Cons.prems(3)] .
    finally show ?thesis using c by simp
  qed
qed

lemma allMatches_spans_ok: "spans_ok S 0 (allMatches R S)"
  unfolding allMatches_def
  by (rule spans_ok_mono [OF collectMatches_spans_ok]) simp

lemma replaceWithSpaces_length: "length (replaceWithSpaces S R) = length S"
  unfolding replaceWithSpaces_def String_replace_def
  using assemble_length [OF allMatches_spans_ok, where f = "\<lambda>m. replicate (length m) SPACE"]
  by simp

lemma replaceWithSpaces_nth:
  "j < length S \<Longrightarrow> replaceWithSpaces S R ! j = (if inSpan R S j then SPACE else S ! j)"
  unfolding replaceWithSpaces_def String_replace_def inSpan_def
  using assemble_nth [OF allMatches_spans_ok [of S R], where j = j]
  by simp







section \<open>Tokens\<close>

lemma starGreedy_split:
  "starGreedy p k s = Some r \<Longrightarrow> \<exists>pre suf. s = pre @ suf \<and> list_all p pre \<and> k suf = Some r"
proof (induction s)
  case Nil
  then show ?case by simp
next
  case (Cons c cs)
  show ?case
  proof (cases "p c \<and> starGreedy p k cs = Some r")
    case True
    with Cons.IH obtain pre suf where "cs = pre @ suf" "list_all p pre" "k suf = Some r"
      by blast
    with True have "c # cs = (c # pre) @ suf \<and> list_all p (c # pre) \<and> k suf = Some r"
      by simp
    then show ?thesis by blast
  next
    case False
    with Cons.prems have "k (c # cs) = Some r"
      by (auto split: if_splits option.splits)
    then have "c # cs = [] @ (c # cs) \<and> list_all p [] \<and> k (c # cs) = Some r"
      by simp
    then show ?thesis by blast
  qed
qed

lemma wordRegex_matcher:
  assumes "matcher wordRegex S i = Some n"
  shows "list_all cls_wordChar (substring S i (i + n))"
proof -
  let ?k = "\<lambda>rest :: jsstring. Some (length rest)"
  from assms obtain l where
    c: "compile (seqs [Chr cls_letter, Chr cls_wordChar, Chr cls_wordChar, Chr cls_wordChar,
          Star cls_wordChar]) ?k (drop i S) = Some l"
    and n: "n = length S - i - l"
    by (auto simp: wordRegex_def literal_g_def matcherOf_def split: option.splits)
  from c obtain c1 c2 c3 c4 rest where
    s: "drop i S = c1 # c2 # c3 # c4 # rest"
    and cl: "cls_letter c1" "cls_wordChar c2" "cls_wordChar c3" "cls_wordChar c4"
    and st: "starGreedy cls_wordChar ?k rest = Some l"
    by (auto split: list.splits if_splits)
  from starGreedy_split [OF st] obtain pre suf where
    r: "rest = pre @ suf" "list_all cls_wordChar pre" "l = length suf"
    by auto
  have "length (drop i S) = 4 + length pre + length suf"
    using s r by simp
  then have "n = 4 + length pre"
    using n r by simp
  moreover have "drop i S = (c1 # c2 # c3 # c4 # pre) @ suf"
    using s r by simp
  ultimately have "substring S i (i + n) = c1 # c2 # c3 # c4 # pre"
    by (simp add: substring_def del: append.simps)
  with cl r show ?thesis
    by (simp add: cls_wordChar_def)
qed

lemma collectMatches_all:
  "(i, m) \<in> set (collectMatches R S li) \<Longrightarrow>
   (\<And>li i m. RegExpBuiltinExec R S li = Some (i, m) \<Longrightarrow> Q i m) \<Longrightarrow> Q i m"
proof (induction R S li rule: collectMatches.induct)
  case (1 R S li)
  show ?case
  proof (cases "RegExpBuiltinExec R S li")
    case None
    with "1.prems"(1) show ?thesis
      by (simp add: collectMatches.simps [of R S li])
  next
    case (Some x)
    obtain i' m' where x: "x = (i', m')" by (cases x)
    note ex = Some [unfolded x]
    from "1.prems"(2) [OF ex] have q: "Q i' m'" .
    show ?thesis
    proof (cases "(i, m) = (i', m')")
      case True
      with q show ?thesis by simp
    next
      case False
      with "1.prems"(1) ex have g: "global R"
        and mem: "(i, m) \<in> set (collectMatches R S
           (if m' = [] then AdvanceStringIndex S (i' + length m') (unicode R)
            else i' + length m'))"
        by (auto simp: collectMatches.simps [of R S li] split: if_splits)
      from "1.IH" [OF ex refl g mem "1.prems"(2)] show ?thesis .
    qed
  qed
qed

lemma tokens_wordChars:
  assumes "(i, m) \<in> set (allMatches wordRegex S)"
  shows "list_all cls_wordChar m"
proof -
  have "list_all cls_wordChar m'" if "RegExpBuiltinExec wordRegex S li = Some (i', m')"
    for li i' m'
    using exec_result [OF that] wordRegex_matcher by auto
  with assms show ?thesis
    unfolding allMatches_def
    by (rule collectMatches_all [where Q = "\<lambda>i m. list_all cls_wordChar m"])
qed

lemma wordChar_not_digit: "cls_wordChar c \<Longrightarrow> \<not> cls_d c"
  by (auto simp: cls_wordChar_def cls_letter_def cls_upper_def cls_lower_def cls_d_def
        word_le_nat_alt)


text \<open>
  Claim C10. Every token the word rule produces consists of letters and the two
  apostrophes only, so the test for a digit on its normalized form is false: the branch
  of the loop that discards tokens with a digit is never taken.
\<close>

theorem tokens_have_no_digit:
  assumes "(index, originalWord) \<in> set (allMatches wordRegex S)"
  shows "list_all (\<lambda>c. cls_letter c \<or> c = APOSTROPHE \<or> c = CURLY_APOSTROPHE) originalWord \<and>
         \<not> containsDigit (normalizeWord originalWord)"
proof -
  from assms have w: "list_all cls_wordChar originalWord"
    by (rule tokens_wordChars)
  then have letters:
    "list_all (\<lambda>c. cls_letter c \<or> c = APOSTROPHE \<or> c = CURLY_APOSTROPHE) originalWord"
    by (simp add: cls_wordChar_def list_all_iff)
  have "\<not> cls_d c" if "c \<in> set originalWord" for c
    using w that wordChar_not_digit [of c] by (simp add: list_all_iff)
  moreover have "\<not> cls_d APOSTROPHE"
    by (simp add: cls_d_def)
  ultimately have "\<not> containsDigit (normalizeWord originalWord)"
    by (auto simp: containsDigit_def normalizeWord_def list_ex_iff)
  with letters show ?thesis by simp
qed

theorem tokens_have_no_digit_witness:
  "(0, js ''abcd'') \<in> set (allMatches wordRegex (js ''abcd 12'')) \<and>
   list_all (\<lambda>c. cls_letter c \<or> c = APOSTROPHE \<or> c = CURLY_APOSTROPHE) (js ''abcd'') \<and>
   \<not> containsDigit (normalizeWord (js ''abcd''))"
proof -
  have "allMatches wordRegex (js ''abcd 12'') = [(0, js ''abcd'')]"
    by code_simp
  then have m: "(0, js ''abcd'') \<in> set (allMatches wordRegex (js ''abcd 12''))"
    by simp
  from tokens_have_no_digit [OF m] m show ?thesis by simp
qed

section \<open>The loop of the check pass\<close>

lemma scan_skip:
  "containsDigit (normalizeWord w) \<or> normalizeWord w \<in> set (ignoreWordsList st) \<Longrightarrow>
     scanTokens st svc doc ((i, w) # toks) ps =
       scanTokens st svc doc toks (ps\<lparr>processedTokens := processedTokens ps + 1\<rparr>)"
  by (auto simp: Let_def)

lemma scan_error:
  "\<not> containsDigit (normalizeWord w) \<Longrightarrow> normalizeWord w \<notin> set (ignoreWordsList st) \<Longrightarrow>
   check svc (normalizeWord w) = Inl e \<Longrightarrow>
     scanTokens st svc doc ((i, w) # toks) ps = Inl e"
  by (simp add: Let_def)

lemma scan_accept:
  "\<not> containsDigit (normalizeWord w) \<Longrightarrow> normalizeWord w \<notin> set (ignoreWordsList st) \<Longrightarrow>
   check svc (normalizeWord w) = Inr True \<Longrightarrow>
     scanTokens st svc doc ((i, w) # toks) ps =
       (if int (processedTokens ps + 1) \<ge> maxDiagnostics st * 20
        then Inr (ps\<lparr>processedTokens := processedTokens ps + 1\<rparr>)
        else scanTokens st svc doc toks (ps\<lparr>processedTokens := processedTokens ps + 1\<rparr>))"
  by (simp add: Let_def)

lemma scan_reject:
  "\<not> containsDigit (normalizeWord w) \<Longrightarrow> normalizeWord w \<notin> set (ignoreWordsList st) \<Longrightarrow>
   check svc (normalizeWord w) = Inr False \<Longrightarrow>
     scanTokens st svc doc ((i, w) # toks) ps =
       (if int (length (diagnostics ps) + 1) \<ge> maxDiagnostics st
        then Inr (ps\<lparr>processedTokens := processedTokens ps + 1,
                     diagnostics := diagnostics ps @ [newDiagnostic st doc i w],
                     notices := notices ps @ [OverLimit (maxDiagnostics st)]\<rparr>)
        else if int (processedTokens ps + 1) \<ge> maxDiagnostics st * 20
        then Inr (ps\<lparr>processedTokens := processedTokens ps + 1,
                     diagnostics := diagnostics ps @ [newDiagnostic st doc i w]\<rparr>)
        else scanTokens st svc doc toks
               (ps\<lparr>processedTokens := processedTokens ps + 1,
                   diagnostics := diagnostics ps @ [newDiagnostic st doc i w]\<rparr>))"
  by (simp add: Let_def)


declare scanTokens.simps [simp del]

lemma scan_accept_cases:
  assumes "\<not> containsDigit (normalizeWord w)" "normalizeWord w \<notin> set (ignoreWordsList st)"
    and "check svc (normalizeWord w) = Inr True"
    and "scanTokens st svc doc ((i, w) # toks) ps = Inr ps'"
  shows "ps' = ps\<lparr>processedTokens := processedTokens ps + 1\<rparr> \<or>
         scanTokens st svc doc toks (ps\<lparr>processedTokens := processedTokens ps + 1\<rparr>) = Inr ps'"
proof (cases "int (processedTokens ps + 1) \<ge> maxDiagnostics st * 20")
  case True
  with assms(4) show ?thesis
    unfolding scan_accept [OF assms(1-3)] by simp
next
  case False
  with assms(4) show ?thesis
    unfolding scan_accept [OF assms(1-3)] by simp
qed

lemma scan_reject_cases:
  assumes "\<not> containsDigit (normalizeWord w)" "normalizeWord w \<notin> set (ignoreWordsList st)"
    and "check svc (normalizeWord w) = Inr False"
    and "scanTokens st svc doc ((i, w) # toks) ps = Inr ps'"
  shows "ps' = ps\<lparr>processedTokens := processedTokens ps + 1,
                   diagnostics := diagnostics ps @ [newDiagnostic st doc i w],
                   notices := notices ps @ [OverLimit (maxDiagnostics st)]\<rparr> \<or>
         ps' = ps\<lparr>processedTokens := processedTokens ps + 1,
                   diagnostics := diagnostics ps @ [newDiagnostic st doc i w]\<rparr> \<or>
         scanTokens st svc doc toks
           (ps\<lparr>processedTokens := processedTokens ps + 1,
               diagnostics := diagnostics ps @ [newDiagnostic st doc i w]\<rparr>) = Inr ps'"
proof (cases "int (length (diagnostics ps) + 1) \<ge> maxDiagnostics st")
  case True
  with assms(4) show ?thesis
    unfolding scan_reject [OF assms(1-3)] by simp
next
  case False
  note nomax = this
  show ?thesis
  proof (cases "int (processedTokens ps + 1) \<ge> maxDiagnostics st * 20")
    case True
    with nomax assms(4) show ?thesis
      unfolding scan_reject [OF assms(1-3)] by simp
  next
    case False
    with nomax assms(4) show ?thesis
      unfolding scan_reject [OF assms(1-3)] by simp
  qed
qed


lemma scanTokens_diagnostics:
  "scanTokens st svc doc toks ps = Inr ps' \<Longrightarrow> d \<in> set (diagnostics ps') \<Longrightarrow>
     d \<in> set (diagnostics ps) \<or>
     (\<exists>i w. (i, w) \<in> set toks \<and> d = newDiagnostic st doc i w \<and>
        normalizeWord w \<notin> set (ignoreWordsList st) \<and>
        check svc (normalizeWord w) = Inr False)"
proof (induction toks arbitrary: ps)
  case Nil
  then show ?case by (simp add: scanTokens.simps)
next
  case (Cons tok toks)
  obtain i w where tok: "tok = (i, w)" by (cases tok)
  let ?ps1 = "ps\<lparr>processedTokens := processedTokens ps + 1\<rparr>"
  let ?ps2 = "ps\<lparr>processedTokens := processedTokens ps + 1,
                  diagnostics := diagnostics ps @ [newDiagnostic st doc i w]\<rparr>"
  let ?ps3 = "ps\<lparr>processedTokens := processedTokens ps + 1,
                  diagnostics := diagnostics ps @ [newDiagnostic st doc i w],
                  notices := notices ps @ [OverLimit (maxDiagnostics st)]\<rparr>"
  have later: ?case if "scanTokens st svc doc toks ps0 = Inr ps'"
    and "d \<in> set (diagnostics ps0) \<Longrightarrow> d \<in> set (diagnostics ps) \<or>
           (d = newDiagnostic st doc i w \<and> normalizeWord w \<notin> set (ignoreWordsList st) \<and>
            check svc (normalizeWord w) = Inr False)" for ps0
  proof -
    from Cons.IH [OF that(1) Cons.prems(2)]
    consider "d \<in> set (diagnostics ps0)"
      | i' w' where "(i', w') \<in> set toks" "d = newDiagnostic st doc i' w'"
          "normalizeWord w' \<notin> set (ignoreWordsList st)"
          "check svc (normalizeWord w') = Inr False"
      by blast
    then show ?thesis
    proof cases
      case 1
      from that(2) [OF 1] show ?thesis
      proof
        assume "d \<in> set (diagnostics ps)"
        then show ?thesis ..
      next
        assume a: "d = newDiagnostic st doc i w \<and> normalizeWord w \<notin> set (ignoreWordsList st) \<and>
            check svc (normalizeWord w) = Inr False"
        have "(i, w) \<in> set (tok # toks)" using tok by simp
        with a show ?thesis by blast
      qed
    next
      case 2
      have "(i', w') \<in> set (tok # toks)" using 2(1) by simp
      with 2 show ?thesis by blast
    qed
  qed
  note run = Cons.prems(1) [unfolded tok]
  show ?case
  proof (cases "containsDigit (normalizeWord w) \<or> normalizeWord w \<in> set (ignoreWordsList st)")
    case True
    from run have "scanTokens st svc doc toks ?ps1 = Inr ps'"
      by (simp only: scan_skip [OF True])
    then show ?thesis by (rule later) simp
  next
    case False
    then have nd: "\<not> containsDigit (normalizeWord w)"
      and ni: "normalizeWord w \<notin> set (ignoreWordsList st)"
      by simp_all
    show ?thesis
    proof (cases "check svc (normalizeWord w)")
      case (Inl e)
      from run show ?thesis
        by (simp only: scan_error [OF nd ni Inl] sum.distinct)
    next
      case (Inr ok)
      show ?thesis
      proof (cases ok)
        case True
        with Inr have acc: "check svc (normalizeWord w) = Inr True" by simp
        from scan_accept_cases [OF nd ni acc run] show ?thesis
        proof
          assume "ps' = ?ps1"
          with Cons.prems(2) show ?thesis by simp
        next
          assume "scanTokens st svc doc toks ?ps1 = Inr ps'"
          then show ?thesis by (rule later) simp
        qed
      next
        case False
        with Inr have rej: "check svc (normalizeWord w) = Inr False" by simp
        have "(i, w) \<in> set (tok # toks)" using tok by simp
        with ni rej have here: "d = newDiagnostic st doc i w \<Longrightarrow> ?thesis"
          by blast
        from scan_reject_cases [OF nd ni rej run] show ?thesis
        proof (elim disjE)
          assume "ps' = ?ps3"
          with Cons.prems(2) have "d \<in> set (diagnostics ps) \<or> d = newDiagnostic st doc i w"
            by auto
          with here show ?thesis by blast
        next
          assume "ps' = ?ps2"
          with Cons.prems(2) have "d \<in> set (diagnostics ps) \<or> d = newDiagnostic st doc i w"
            by auto
          with here show ?thesis by blast
        next
          assume "scanTokens st svc doc toks ?ps2 = Inr ps'"
          then show ?thesis
            by (rule later) (use ni rej in auto)
        qed
      qed
    qed
  qed
qed









text \<open>
  With CR LF line endings the offsets are those of the text after \<^verbatim>\<open>replace(/\r?\n/g, '\n')\<close>,
  while \<open>positionAt\<close> counts in the document: the range of \<open>abcd\<close> slices to the second
  line break and \<open>ab\<close>.
\<close>

lemma crlf_shifts_ranges:
  "map d_range (case checkPass example_host example_provider
       (example_document [CR, LF, CR, LF, 0x61, 0x62, 0x63, 0x64]) of
       Inr ps \<Rightarrow> diagnostics ps | Inl e \<Rightarrow> []) = [(2, 6)] \<and>
   substring [CR, LF, CR, LF, 0x61, 0x62, 0x63, 0x64] 2 6 = [CR, LF, 0x61, 0x62]"
  by code_simp

text \<open>
  Claim C4. A word of the ignore list, the merged list of the settings whatever scope an
  entry came from, is the word of no diagnostic of a pass, whatever the dictionary says
  about it.
\<close>

theorem ignored_word_never_flagged:
  assumes "checkPass h p document = Inr ps"
    and "word \<in> set (ignoreWordsList (settings p))"
  shows "Some word \<notin> d_code ` set (diagnostics ps)"
proof
  assume "Some word \<in> d_code ` set (diagnostics ps)"
  then obtain d where d: "d \<in> set (diagnostics ps)" "d_code d = Some word"
    by auto
  from scanTokens_diagnostics [OF assms(1) [unfolded checkPass_def] d(1)]
  obtain i w where "d = newDiagnostic (settings p) document i w"
    and "normalizeWord w \<notin> set (ignoreWordsList (settings p))"
    by (auto simp: pass0_def)
  with d(2) assms(2) show False
    by (simp add: newDiagnostic_def)
qed


theorem ignored_word_never_flagged_witness:
  "checkPass example_host
     (example_provider\<lparr>settings := (settings example_provider)\<lparr>ignoreWordsList := [js ''helo'']\<rparr>\<rparr>)
     (example_document (js ''helo wrold'')) =
     Inr \<lparr>diagnostics =
            [\<lparr>d_range = (5, 10), d_message = js ''Spelling: wrold'',
              d_severity = Severity_Warning, d_source = js ''Spell Checker'',
              d_code = Some (js ''wrold'')\<rparr>],
          processedTokens = 2, notices = []\<rparr> \<and>
   check (spellService example_provider) (js ''helo'') = Inr False \<and>
   Some (js ''helo'') \<notin> d_code ` set [\<lparr>d_range = (5, 10), d_message = js ''Spelling: wrold'',
              d_severity = Severity_Warning, d_source = js ''Spell Checker'',
              d_code = Some (js ''wrold'')\<rparr>]"
proof -
  let ?p = "example_provider\<lparr>settings := (settings example_provider)\<lparr>ignoreWordsList := [js ''helo'']\<rparr>\<rparr>"
  let ?ds = "[\<lparr>d_range = (5, 10), d_message = js ''Spelling: wrold'',
              d_severity = Severity_Warning, d_source = js ''Spell Checker'',
              d_code = Some (js ''wrold'')\<rparr>]"
  have p: "checkPass example_host ?p (example_document (js ''helo wrold'')) =
      Inr \<lparr>diagnostics = ?ds, processedTokens = 2, notices = []\<rparr>"
    by code_simp
  have i: "js ''helo'' \<in> set (ignoreWordsList (settings ?p))"
    by simp
  have c: "check (spellService example_provider) (js ''helo'') = Inr False"
    by code_simp
  from ignored_word_never_flagged [OF p i] p c show ?thesis by simp
qed

section \<open>The dictionary service\<close>

lemma load_fails_any:
  "loadFails h root lang \<Longrightarrow> fst (load h lang root svc) \<noteq> None \<and> snd (load h lang root svc) = svc"
  by (auto simp: loadFails_def load_def Let_def split: option.splits)

lemma loads_all_fail:
  "list_all (loadFails h root) langs \<Longrightarrow> loads h root langs svc = svc"
  by (induction langs arbitrary: svc) (simp_all add: load_fails_any)

text \<open>
  Claim C6. As long as no load has succeeded, \<open>check\<close> raises the error of
  \<open>assertReady\<close> for every word, and so returns no boolean.
\<close>

theorem check_before_load:
  assumes "list_all (loadFails h root) languages"
  shows "\<not> isReady (loads h root languages new_SpellService) \<and>
         check (loads h root languages new_SpellService) word = Inl NotLoaded"
  using loads_all_fail [OF assms, of new_SpellService]
  by (simp add: isReady_def check_def assertReady_def new_SpellService_def)

theorem check_before_load_witness:
  "list_all (loadFails example_host []) [fr, sv_SE] \<and>
   \<not> isReady (loads example_host [] [fr, sv_SE] new_SpellService) \<and>
   check (loads example_host [] [fr, sv_SE] new_SpellService) (js ''hello'') = Inl NotLoaded"
proof -
  have f: "list_all (loadFails example_host []) [fr, sv_SE]"
    by code_simp
  from check_before_load [OF f, of "js ''hello''"] f show ?thesis by simp
qed

lemma load_success_ready:
  "load h lang root svc = (None, svc') \<Longrightarrow> isReady svc'"
  by (auto simp: load_def Let_def isReady_def split: option.splits)

lemma loadDictionary_ready:
  assumes "fst (load h lang (extensionRoot q) (spellService q)) = None"
  shows "isReady (spellService (loadDictionary h lang q))"
proof -
  obtain a b where l: "load h lang (extensionRoot q) (spellService q) = (a, b)"
    by (cases "load h lang (extensionRoot q) (spellService q)")
  with assms have a: "a = None" by simp
  with l have "isReady b" by (simp add: load_success_ready)
  then show ?thesis by (simp add: loadDictionary_def l a)
qed

text \<open>
  Claim C5, amended. A failed load returns its error to the caller, \<open>loadDictionary\<close>
  shows it, and the service is left as it was: \<open>isReady\<close> keeps its value. If no load
  had succeeded before, \<open>isReady\<close> is false and no document is checked, until a load
  succeeds.
\<close>

theorem failed_load_keeps_state:
  assumes "load h lang (extensionRoot p) (spellService p) = (Some e, svc')"
  shows "svc' = spellService p \<and>
         loadDictionary h lang p = p\<lparr>errorMessages := errorMessages p @ [LoadFailed lang e]\<rparr> \<and>
         isReady (spellService (loadDictionary h lang p)) = isReady (spellService p) \<and>
         (\<not> isReady (spellService p) \<longrightarrow>
            \<not> shouldCheck h' (loadDictionary h lang p) document \<and>
            doSpellCheck h' (Some document) (loadDictionary h lang p) =
              (None, loadDictionary h lang p)) \<and>
         (fst (load h'' lang' (extensionRoot p) (spellService (loadDictionary h lang p))) = None \<longrightarrow>
            isReady (spellService (loadDictionary h'' lang' (loadDictionary h lang p))))"
proof -
  from assms have svc: "svc' = spellService p"
    by (auto simp: load_def Let_def split: option.splits)
  with assms have ld: "loadDictionary h lang p = p\<lparr>errorMessages := errorMessages p @ [LoadFailed lang e]\<rparr>"
    by (simp add: loadDictionary_def)
  have "fst (load h'' lang' (extensionRoot p) (spellService (loadDictionary h lang p))) = None \<longrightarrow>
            isReady (spellService (loadDictionary h'' lang' (loadDictionary h lang p)))"
    using loadDictionary_ready [of h'' lang' "loadDictionary h lang p"] by (simp add: ld)
  then show ?thesis
    using svc by (simp add: ld shouldCheck_def doSpellCheck_def)
qed

theorem failed_load_keeps_state_witness:
  "load example_host fr (extensionRoot new_Provider) (spellService new_Provider) =
     (Some IOError, spellService new_Provider) \<and>
   errorMessages (loadDictionary example_host fr new_Provider) = [LoadFailed fr IOError] \<and>
   \<not> isReady (spellService (loadDictionary example_host fr new_Provider)) \<and>
   \<not> shouldCheck example_host (loadDictionary example_host fr new_Provider)
       (example_document (js ''helo'')) \<and>
   fst (load example_host en_US (extensionRoot new_Provider)
          (spellService (loadDictionary example_host fr new_Provider))) = None \<and>
   isReady (spellService (loadDictionary example_host en_US
          (loadDictionary example_host fr new_Provider)))"
proof -
  let ?q = "loadDictionary example_host fr new_Provider"
  have l: "load example_host fr (extensionRoot new_Provider) (spellService new_Provider) =
      (Some IOError, spellService new_Provider)"
    by (simp add: load_def Let_def example_host_def new_Provider_def path_join_def js_def)
  have nr: "\<not> isReady (spellService new_Provider)"
    by (simp add: isReady_def new_Provider_def new_SpellService_def)
  from failed_load_keeps_state [OF l, where h' = example_host
      and document = "example_document (js ''helo'')" and h'' = example_host and lang' = en_US]
  have A: "?q = new_Provider\<lparr>errorMessages := errorMessages new_Provider @ [LoadFailed fr IOError]\<rparr>"
    and B: "isReady (spellService ?q) = isReady (spellService new_Provider)"
    and C: "\<not> isReady (spellService new_Provider) \<longrightarrow>
              \<not> shouldCheck example_host ?q (example_document (js ''helo''))"
    and D: "fst (load example_host en_US (extensionRoot new_Provider) (spellService ?q)) = None \<longrightarrow>
              isReady (spellService (loadDictionary example_host en_US ?q))"
    by blast+
  have E: "errorMessages ?q = [LoadFailed fr IOError]"
    by (subst A) (simp add: new_Provider_def)
  have S: "spellService ?q = spellService new_Provider"
    by (subst A) simp
  have ok: "fst (load example_host en_US (extensionRoot new_Provider) (spellService ?q)) = None"
    unfolding S
    by (simp add: load_def Let_def example_host_def new_Provider_def path_join_def js_def)
  from l E B C D nr ok show ?thesis by blast
qed

text \<open>
  The claim as the specification states it fails after an earlier successful load: the
  files of \<open>fr\<close> are missing, the load fails, and the service is still ready with the
  dictionary of \<open>en_US\<close>, so documents are still checked.
\<close>

theorem failed_load_counterexample:
  "fst (load example_host fr [] (spellService example_provider)) = Some IOError \<and>
   isReady (spellService (loadDictionary example_host fr example_provider)) \<and>
   shouldCheck example_host (loadDictionary example_host fr example_provider)
     (example_document (js ''helo''))"
  by code_simp

section \<open>Suggestions and quick fixes\<close>

text \<open>
  Claim C7, amended. When \<open>suggest\<close> of the service raises, for an exception of the
  backing checker as for any other, \<open>safeSuggest\<close> of the provider returns no
  suggestion, and \<open>provideCodeActions\<close> offers no replacement and the two ignore
  actions.
\<close>

theorem suggest_failure_degrades:
  assumes "suggest (spellService p) word (suggestionLimit (settings p)) = Inl e"
    and "List.find (\<lambda>d. d_code d \<noteq> None) context_diagnostics = Some diagnostic"
    and "d_code diagnostic = Some word"
  shows "safeSuggest p word = [] \<and>
         provideCodeActions p document context_diagnostics =
           Some [Ignore (uri document) word, AlwaysIgnore (uri document) word]"
  using assms by (simp add: safeSuggest_def provideCodeActions_def)

theorem suggest_failure_degrades_witness:
  "suggest (spellService example_provider) (js ''helo'')
     (suggestionLimit (settings example_provider)) = Inl CheckerError \<and>
   safeSuggest example_provider (js ''helo'') = [] \<and>
   provideCodeActions example_provider (example_document (js ''helo''))
     [newDiagnostic (settings example_provider) (example_document (js ''helo'')) 0 (js ''helo'')] =
     Some [Ignore (js ''file:///a.md'') (js ''helo''), AlwaysIgnore (js ''file:///a.md'') (js ''helo'')]"
proof -
  let ?doc = "example_document (js ''helo'')"
  let ?d = "newDiagnostic (settings example_provider) ?doc 0 (js ''helo'')"
  have s: "suggest (spellService example_provider) (js ''helo'')
     (suggestionLimit (settings example_provider)) = Inl CheckerError"
    by code_simp
  have f: "List.find (\<lambda>d. d_code d \<noteq> None) [?d] = Some ?d"
    by (simp add: newDiagnostic_def)
  have c: "d_code ?d = Some (js ''helo'')"
    by (simp add: newDiagnostic_def normalizeWord_def js_def)
  have u: "uri ?doc = js ''file:///a.md''"
    by (simp add: example_document_def)
  from suggest_failure_degrades [OF s f c, of ?doc] s u show ?thesis by simp
qed

text \<open>
  The claim as the specification states it fails for \<open>suggest\<close> of the service, which has
  no handler: the exception of the backing checker reaches its caller.
\<close>

theorem suggest_failure_counterexample:
  "isReady (spellService example_provider) \<and>
   dict_suggest rejectAll (js ''helo'') = Throws \<and>
   suggest (spellService example_provider) (js ''helo'') 5 = Inl CheckerError"
  by code_simp

section \<open>Automatic and manual checks\<close>

lemma handleEvent_disabled:
  "checkInterval (settings p) < 0 \<Longrightarrow> handleEvent h e p = p"
  by (cases e) (simp_all add: maybeAutoCheck_def onDocumentChanged_def)

text \<open>
  Claim C9. With a negative \<open>checkInterval\<close>, no sequence of open, save and change
  events changes the provider: no timer is armed, no diagnostics are set and
  \<open>lastcheck\<close> is not written, whatever the clock and the documents. The command
  \<open>spellchecker.checkDocument\<close> still runs the pass on the document of the active editor
  and stores its diagnostics.
\<close>

theorem negative_interval_disables_automatic_checks:
  assumes "checkInterval (settings p) < 0"
  shows "handleEvents events p = p \<and>
         (activeTextEditor h = Some document \<longrightarrow> fileName document \<noteq> [] \<longrightarrow>
          shouldCheck h p document \<longrightarrow>
            checkDocumentCommand h p =
              (case checkPass h p document of
                 Inl e \<Rightarrow> (Some e, p)
               | Inr ps \<Rightarrow>
                   (None,
                    p\<lparr>diagnosticMap := (diagnosticMap p)(uri document \<mapsto> diagnostics ps),
                      statusBarMessages := statusBarMessages p @ notices ps,
                      lastcheck := now h\<rparr>)))"
proof -
  have "handleEvents events p = p"
    using assms by (induction events) (auto simp: handleEvent_disabled)
  then show ?thesis
    by (simp add: checkDocumentCommand_def doSpellCheck_def)
qed


theorem negative_interval_witness:
  "checkInterval (settings (example_provider\<lparr>settings := (settings example_provider)\<lparr>checkInterval := - 1\<rparr>\<rparr>)) < 0 \<and>
   timer (handleEvents
     [(example_host, DidChangeTextDocument (example_document (js ''helo''))),
      (example_host, DidOpenTextDocument (example_document (js ''helo''))),
      (example_host, DidSaveTextDocument (example_document (js ''helo'')))]
     (example_provider\<lparr>settings := (settings example_provider)\<lparr>checkInterval := - 1\<rparr>\<rparr>)) = None \<and>
   diagnosticMap (handleEvents
     [(example_host, DidChangeTextDocument (example_document (js ''helo''))),
      (example_host, DidOpenTextDocument (example_document (js ''helo''))),
      (example_host, DidSaveTextDocument (example_document (js ''helo'')))]
     (example_provider\<lparr>settings := (settings example_provider)\<lparr>checkInterval := - 1\<rparr>\<rparr>))
     (js ''file:///a.md'') = None \<and>
   diagnosticMap (snd (checkDocumentCommand
       (example_host\<lparr>activeTextEditor := Some (example_document (js ''helo''))\<rparr>)
       (example_provider\<lparr>settings := (settings example_provider)\<lparr>checkInterval := - 1\<rparr>\<rparr>)))
     (js ''file:///a.md'') =
     Some [\<lparr>d_range = (0, 4), d_message = js ''Spelling: helo'',
            d_severity = Severity_Warning, d_source = js ''Spell Checker'',
            d_code = Some (js ''helo'')\<rparr>]"
proof -
  let ?doc = "example_document (js ''helo'')"
  let ?p = "example_provider\<lparr>settings := (settings example_provider)\<lparr>checkInterval := - 1\<rparr>\<rparr>"
  let ?h = "example_host\<lparr>activeTextEditor := Some ?doc\<rparr>"
  let ?es = "[(example_host, DidChangeTextDocument ?doc), (example_host, DidOpenTextDocument ?doc),
      (example_host, DidSaveTextDocument ?doc)]"
  let ?ps = "\<lparr>diagnostics = [\<lparr>d_range = (0, 4), d_message = js ''Spelling: helo'',
            d_severity = Severity_Warning, d_source = js ''Spell Checker'',
            d_code = Some (js ''helo'')\<rparr>], processedTokens = 1, notices = []\<rparr>"
  have neg: "checkInterval (settings ?p) < 0"
    by simp
  have a: "activeTextEditor ?h = Some ?doc"
    by simp
  have f: "fileName ?doc \<noteq> []"
    by (simp add: example_document_def js_def)
  have sc: "shouldCheck ?h ?p ?doc"
    by code_simp
  have cp: "checkPass ?h ?p ?doc = Inr ?ps"
    by code_simp
  have t0: "timer ?p = None"
    by (simp add: example_provider_def loadDictionary_def new_Provider_def split: prod.splits option.splits)
  have d0: "diagnosticMap ?p (js ''file:///a.md'') = None"
    by (simp add: example_provider_def loadDictionary_def new_Provider_def split: prod.splits option.splits)
  have u: "uri ?doc = js ''file:///a.md''"
    by (simp add: example_document_def)
  from negative_interval_disables_automatic_checks [OF neg, of ?es ?h ?doc]
  have ev: "handleEvents ?es ?p = ?p"
    and manual: "checkDocumentCommand ?h ?p =
       (case checkPass ?h ?p ?doc of
          Inl e \<Rightarrow> (Some e, ?p)
        | Inr ps \<Rightarrow>
            (None,
             ?p\<lparr>diagnosticMap := (diagnosticMap ?p)(uri ?doc \<mapsto> diagnostics ps),
               statusBarMessages := statusBarMessages ?p @ notices ps,
               lastcheck := now ?h\<rparr>))"
    using a f sc by blast+
  from manual have "diagnosticMap (snd (checkDocumentCommand ?h ?p)) (js ''file:///a.md'') =
      Some (diagnostics ?ps)"
    by (simp only: cp u) simp
  with ev t0 d0 neg show ?thesis
    by (simp only:) simp
qed

section \<open>The caps of a pass\<close>

text \<open>
  Claim C3 fails on the code. The loop counts a token of the ignore list and leaves the
  iteration by \<open>continue\<close>, before the test of \<open>processedTokens\<close> against
  \<open>maxDiagnostics * 20\<close>: a run of ignored tokens is scanned to its end, whatever the
  cap.
\<close>

theorem ignored_tokens_all_scanned:
  "list_all (\<lambda>(i, w). normalizeWord w \<in> set (ignoreWordsList st)) toks \<Longrightarrow>
     scanTokens st svc doc toks ps =
       Inr (ps\<lparr>processedTokens := processedTokens ps + length toks\<rparr>)"
proof (induction toks arbitrary: ps)
  case Nil
  then show ?case by (simp add: scanTokens.simps)
next
  case (Cons tok toks)
  obtain i w where tok: "tok = (i, w)" by (cases tok)
  from Cons.prems tok have ign: "normalizeWord w \<in> set (ignoreWordsList st)"
    and rest: "list_all (\<lambda>(i, w). normalizeWord w \<in> set (ignoreWordsList st)) toks"
    by simp_all
  from ign have "scanTokens st svc doc ((i, w) # toks) ps =
      scanTokens st svc doc toks (ps\<lparr>processedTokens := processedTokens ps + 1\<rparr>)"
    by (simp add: scan_skip)
  also have "\<dots> = Inr (ps\<lparr>processedTokens := processedTokens ps + 1 + length toks\<rparr>)"
    using Cons.IH [OF rest, of "ps\<lparr>processedTokens := processedTokens ps + 1\<rparr>"] by simp
  finally show ?case by (simp add: tok)
qed


text \<open>
  Twenty-one tokens \<open>abcd\<close>, as the word rule finds them in \<open>abcd abcd ... abcd\<close>, with
  \<open>abcd\<close> on the ignore list and \<open>maxDiagnostics = 1\<close>: all twenty-one are counted,
  one more than the cap of twenty.
\<close>

theorem ignored_tokens_all_scanned_witness:
  "list_all (\<lambda>(i, w). normalizeWord w \<in> set (ignoreWordsList
       ((settings example_provider)\<lparr>ignoreWordsList := [js ''abcd''], maxDiagnostics := 1\<rparr>)))
     (map (\<lambda>k. (5 * k, js ''abcd'')) [0..<21]) \<and>
   scanTokens ((settings example_provider)\<lparr>ignoreWordsList := [js ''abcd''], maxDiagnostics := 1\<rparr>)
     (spellService example_provider) (example_document (concat (replicate 21 (js ''abcd ''))))
     (map (\<lambda>k. (5 * k, js ''abcd'')) [0..<21]) pass0 =
     Inr \<lparr>diagnostics = [], processedTokens = 21, notices = []\<rparr> \<and>
   maxDiagnostics ((settings example_provider)\<lparr>ignoreWordsList := [js ''abcd''], maxDiagnostics := 1\<rparr>) * 20 < 21"
proof -
  let ?st = "(settings example_provider)\<lparr>ignoreWordsList := [js ''abcd''], maxDiagnostics := 1\<rparr>"
  let ?toks = "map (\<lambda>k. (5 * k, js ''abcd'')) [0..<21]"
  have n: "normalizeWord (js ''abcd'') = js ''abcd''"
    by (simp add: normalizeWord_def js_def)
  have a: "list_all (\<lambda>(i, w). normalizeWord w \<in> set (ignoreWordsList ?st)) ?toks"
    by (simp add: list_all_iff n)
  from ignored_tokens_all_scanned [OF a, of "spellService example_provider"
      "example_document (concat (replicate 21 (js ''abcd '')))" pass0]
  have "scanTokens ?st (spellService example_provider)
      (example_document (concat (replicate 21 (js ''abcd '')))) ?toks pass0 =
      Inr \<lparr>diagnostics = [], processedTokens = 21, notices = []\<rparr>"
    by (simp add: pass0_def)
  with a show ?thesis by simp
qed

text \<open>The tokens of such a document, on a shorter one.\<close>

lemma tokens_of_ignored_words:
  "allMatches wordRegex (sanitized example_host example_provider
     (example_document (js ''abcd abcd abcd''))) =
   map (\<lambda>k. (5 * k, js ''abcd'')) [0..<3]"
  by code_simp

text \<open>What the loop does keep: the number of diagnostics and of notices.\<close>

lemma scanTokens_caps:
  "scanTokens st svc doc toks ps = Inr ps' \<Longrightarrow> 1 \<le> maxDiagnostics st \<Longrightarrow>
   int (length (diagnostics ps)) < maxDiagnostics st \<Longrightarrow>
     int (length (diagnostics ps')) \<le> maxDiagnostics st \<and>
     (notices ps' = notices ps \<or>
      (notices ps' = notices ps @ [OverLimit (maxDiagnostics st)] \<and>
       int (length (diagnostics ps')) = maxDiagnostics st))"
proof (induction toks arbitrary: ps)
  case Nil
  then show ?case by (simp add: scanTokens.simps)
next
  case (Cons tok toks)
  obtain i w where tok: "tok = (i, w)" by (cases tok)
  let ?ps1 = "ps\<lparr>processedTokens := processedTokens ps + 1\<rparr>"
  let ?ps2 = "ps\<lparr>processedTokens := processedTokens ps + 1,
                  diagnostics := diagnostics ps @ [newDiagnostic st doc i w]\<rparr>"
  let ?ps3 = "ps\<lparr>processedTokens := processedTokens ps + 1,
                  diagnostics := diagnostics ps @ [newDiagnostic st doc i w],
                  notices := notices ps @ [OverLimit (maxDiagnostics st)]\<rparr>"
  note run = Cons.prems(1) [unfolded tok]
  have same: ?case if "scanTokens st svc doc toks ?ps1 = Inr ps'"
    using Cons.IH [OF that Cons.prems(2)] Cons.prems(3) by simp
  show ?case
  proof (cases "containsDigit (normalizeWord w) \<or> normalizeWord w \<in> set (ignoreWordsList st)")
    case True
    from run have "scanTokens st svc doc toks ?ps1 = Inr ps'"
      by (simp only: scan_skip [OF True])
    then show ?thesis by (rule same)
  next
    case False
    then have nd: "\<not> containsDigit (normalizeWord w)"
      and ni: "normalizeWord w \<notin> set (ignoreWordsList st)"
      by simp_all
    show ?thesis
    proof (cases "check svc (normalizeWord w)")
      case (Inl e)
      from run show ?thesis
        by (simp only: scan_error [OF nd ni Inl] sum.distinct)
    next
      case (Inr ok)
      show ?thesis
      proof (cases ok)
        case True
        with Inr have acc: "check svc (normalizeWord w) = Inr True" by simp
        from scan_accept_cases [OF nd ni acc run] show ?thesis
        proof
          assume "ps' = ?ps1"
          with Cons.prems(3) show ?thesis by simp
        next
          assume "scanTokens st svc doc toks ?ps1 = Inr ps'"
          then show ?thesis by (rule same)
        qed
      next
        case False
        with Inr have rej: "check svc (normalizeWord w) = Inr False" by simp
        have eq: "scanTokens st svc doc ((i, w) # toks) ps =
          (if int (length (diagnostics ps) + 1) \<ge> maxDiagnostics st then Inr ?ps3
           else if int (processedTokens ps + 1) \<ge> maxDiagnostics st * 20 then Inr ?ps2
           else scanTokens st svc doc toks ?ps2)"
          by (rule scan_reject [OF nd ni rej])
        show ?thesis
        proof (cases "int (length (diagnostics ps) + 1) \<ge> maxDiagnostics st")
          case True
          with run eq have "ps' = ?ps3" by simp
          with True Cons.prems(3) show ?thesis by simp
        next
          case False
          note below = this
          show ?thesis
          proof (cases "int (processedTokens ps + 1) \<ge> maxDiagnostics st * 20")
            case True
            with below run eq have "ps' = ?ps2" by simp
            with below show ?thesis by simp
          next
            case False
            with below run eq have r: "scanTokens st svc doc toks ?ps2 = Inr ps'" by simp
            from below have "int (length (diagnostics ?ps2)) < maxDiagnostics st" by simp
            from Cons.IH [OF r Cons.prems(2) this] show ?thesis by simp
          qed
        qed
      qed
    qed
  qed
qed


section \<open>Sanitizing twice\<close>

subsection \<open>The matcher and the language of a pattern\<close>

lemma starGreedy_sound:
  "starGreedy q k s = Some r \<Longrightarrow> \<exists>pre suf. s = pre @ suf \<and> list_all q pre \<and> k suf = Some r"
  by (rule starGreedy_split)

lemma starLazy_sound:
  "starLazy q k s = Some r \<Longrightarrow> \<exists>pre suf. s = pre @ suf \<and> list_all q pre \<and> k suf = Some r"
proof (induction s)
  case Nil
  then show ?case by simp
next
  case (Cons c cs)
  show ?case
  proof (cases "k (c # cs)")
    case (Some r')
    with Cons.prems have "k (c # cs) = Some r" by simp
    then have "c # cs = [] @ (c # cs) \<and> list_all q [] \<and> k (c # cs) = Some r" by simp
    then show ?thesis by blast
  next
    case None
    with Cons.prems have qc: "q c" and rec: "starLazy q k cs = Some r"
      by (auto split: if_splits)
    from Cons.IH [OF rec] obtain pre suf where "cs = pre @ suf" "list_all q pre" "k suf = Some r"
      by blast
    with qc have "c # cs = (c # pre) @ suf \<and> list_all q (c # pre) \<and> k suf = Some r" by simp
    then show ?thesis by blast
  qed
qed

lemma starGreedy_complete:
  "list_all q pre \<Longrightarrow> k suf \<noteq> None \<Longrightarrow> starGreedy q k (pre @ suf) \<noteq> None"
proof (induction pre)
  case Nil
  then show ?case by (cases suf) (auto split: option.splits)
next
  case (Cons c pre)
  then show ?case by (auto split: option.splits)
qed

lemma starLazy_complete:
  "list_all q pre \<Longrightarrow> k suf \<noteq> None \<Longrightarrow> starLazy q k (pre @ suf) \<noteq> None"
proof (induction pre)
  case Nil
  then show ?case by (cases suf) (auto split: option.splits)
next
  case (Cons c pre)
  then show ?case by (auto split: option.splits)
qed

lemma compile_sound:
  "compile p k s = Some r \<Longrightarrow> \<exists>pre suf. s = pre @ suf \<and> language p pre \<and> k suf = Some r"
proof (induction p arbitrary: k s r)
  case (Chr q)
  then obtain c cs where s: "s = c # cs" "q c" "k cs = Some r"
    by (auto split: list.splits if_splits)
  then have "s = [c] @ cs \<and> language (Chr q) [c] \<and> k cs = Some r" by simp
  then show ?case by blast
next
  case Empty
  then have "s = [] @ s \<and> language Empty [] \<and> k s = Some r" by simp
  then show ?case by blast
next
  case (Seq a b)
  from Seq.prems have "compile a (compile b k) s = Some r" by simp
  from Seq.IH(1) [OF this] obtain u rest where
    u: "s = u @ rest" "language a u" "compile b k rest = Some r" by blast
  from Seq.IH(2) [OF u(3)] obtain v suf where
    v: "rest = v @ suf" "language b v" "k suf = Some r" by blast
  from u v have "s = (u @ v) @ suf \<and> language (Seq a b) (u @ v) \<and> k suf = Some r"
    by auto
  then show ?case by blast
next
  case (Alt a b)
  show ?case
  proof (cases "compile a k s")
    case (Some r')
    with Alt.prems have "compile a k s = Some r" by simp
    from Alt.IH(1) [OF this] show ?thesis by auto
  next
    case None
    with Alt.prems have "compile b k s = Some r" by simp
    from Alt.IH(2) [OF this] show ?thesis by auto
  qed
next
  case (Star q)
  then show ?case using starGreedy_sound [of q k s r] by simp
next
  case (LazyStar q)
  then show ?case using starLazy_sound [of q k s r] by simp
qed

lemma compile_complete:
  "language p pre \<Longrightarrow> k suf \<noteq> None \<Longrightarrow> compile p k (pre @ suf) \<noteq> None"
proof (induction p arbitrary: k pre suf)
  case (Chr q)
  then show ?case by (auto split: list.splits)
next
  case Empty
  then show ?case by simp
next
  case (Seq a b)
  from Seq.prems(1) obtain u v where uv: "pre = u @ v" "language a u" "language b v" by auto
  have "compile b k (v @ suf) \<noteq> None"
    using Seq.IH(2) [of v k suf] uv(3) Seq.prems(2) by simp
  then have "compile a (compile b k) (u @ (v @ suf)) \<noteq> None"
    using Seq.IH(1) [of u "compile b k" "v @ suf"] uv(2) by simp
  then show ?case by (simp add: uv(1))
next
  case (Alt a b)
  show ?case
  proof (cases "language a pre")
    case True
    then have "compile a k (pre @ suf) \<noteq> None"
      using Alt.IH(1) [of pre k suf] Alt.prems(2) by simp
    then show ?thesis by (auto split: option.splits)
  next
    case False
    with Alt.prems(1) have "language b pre" by simp
    then have "compile b k (pre @ suf) \<noteq> None"
      using Alt.IH(2) [of pre k suf] Alt.prems(2) by simp
    then show ?thesis by (auto split: option.splits)
  qed
next
  case (Star q)
  then show ?case by (simp add: starGreedy_complete)
next
  case (LazyStar q)
  then show ?case by (simp add: starLazy_complete)
qed

lemma lang_chars:
  "language p w \<Longrightarrow> c \<in> set w \<Longrightarrow> \<exists>q \<in> set (classes p). q c"
proof (induction p arbitrary: w)
  case (Chr q)
  then show ?case by (auto split: list.splits)
next
  case (Seq a b)
  then show ?case by fastforce
next
  case (Alt a b)
  then show ?case by fastforce
qed (auto simp: list_all_iff)

lemma lang_first:
  "language p w \<Longrightarrow> (w = [] \<and> nullable p) \<or> (\<exists>c v. w = c # v \<and> (\<exists>q \<in> set (firsts p). q c))"
proof (induction p arbitrary: w)
  case (Chr q)
  then show ?case by (auto split: list.splits)
next
  case Empty
  then show ?case by simp
next
  case (Seq a b)
  from Seq.prems obtain u v where uv: "w = u @ v" "language a u" "language b v" by auto
  from Seq.IH(1) [OF uv(2)] Seq.IH(2) [OF uv(3)] uv(1) show ?case
    by (cases u) auto
next
  case (Alt a b)
  then show ?case by fastforce
next
  case (Star q)
  then show ?case by (cases w) auto
next
  case (LazyStar q)
  then show ?case by (cases w) auto
qed

lemma matcherOf_sound:
  assumes "matcherOf p S i = Some n" and "i \<le> length S"
  shows "i + n \<le> length S \<and> language p (substring S i (i + n))"
proof -
  from assms(1) obtain l where c: "compile p (\<lambda>rest. Some (length rest)) (drop i S) = Some l"
    and n: "n = length S - i - l"
    by (auto simp: matcherOf_def split: option.splits)
  from compile_sound [OF c] obtain pre suf where
    s: "drop i S = pre @ suf" and l: "language p pre" and ls: "l = length suf"
    by auto
  have "length (drop i S) = length pre + length suf"
    by (simp add: s)
  with assms(2) n ls have np: "n = length pre" and "i + n \<le> length S"
    by simp_all
  moreover have "substring S i (i + n) = pre"
    by (simp add: substring_def s np)
  ultimately show ?thesis using l by simp
qed

lemma matcherOf_complete:
  "drop i S = pre @ suf \<Longrightarrow> language p pre \<Longrightarrow> matcherOf p S i \<noteq> None"
  using compile_complete [of p pre "\<lambda>rest. Some (length rest)" suf]
  by (auto simp: matcherOf_def split: option.splits)

lemma lang_mono:
  "language p w \<Longrightarrow> list_all2 (blankOf ok) w w' \<Longrightarrow>
   list_all (\<lambda>q. q SPACE \<longrightarrow> (\<forall>c'. ok c' \<longrightarrow> q c')) (classes p) \<Longrightarrow> language p w'"
proof (induction p arbitrary: w w')
  case (Chr q)
  then obtain c where w: "w = [c]" "q c" by (auto split: list.splits)
  with Chr.prems(2) obtain c' where w': "w' = [c']" "blankOf ok c c'"
    by (auto simp: list_all2_Cons1)
  with w Chr.prems(3) have "q c'" by (auto simp: blankOf_def)
  with w' show ?case by simp
next
  case Empty
  then show ?case by simp
next
  case (Seq a b)
  from Seq.prems(1) obtain u v where uv: "w = u @ v" "language a u" "language b v" by auto
  from Seq.prems(2) uv(1) obtain u' v' where
    uv': "w' = u' @ v'" "list_all2 (blankOf ok) u u'" "list_all2 (blankOf ok) v v'"
    by (auto simp: list_all2_append1)
  from Seq.prems(3) have ca: "list_all (\<lambda>q. q SPACE \<longrightarrow> (\<forall>c'. ok c' \<longrightarrow> q c')) (classes a)"
    and cb: "list_all (\<lambda>q. q SPACE \<longrightarrow> (\<forall>c'. ok c' \<longrightarrow> q c')) (classes b)"
    by simp_all
  from Seq.IH(1) [OF uv(2) uv'(2) ca] Seq.IH(2) [OF uv(3) uv'(3) cb] uv'(1)
  show ?case by auto
next
  case (Alt a b)
  from Alt.prems(3) have ca: "list_all (\<lambda>q. q SPACE \<longrightarrow> (\<forall>c'. ok c' \<longrightarrow> q c')) (classes a)"
    and cb: "list_all (\<lambda>q. q SPACE \<longrightarrow> (\<forall>c'. ok c' \<longrightarrow> q c')) (classes b)"
    by simp_all
  from Alt.prems(1) have "language a w \<or> language b w" by simp
  then show ?case
  proof
    assume "language a w"
    from Alt.IH(1) [OF this Alt.prems(2) ca] show ?thesis by simp
  next
    assume "language b w"
    from Alt.IH(2) [OF this Alt.prems(2) cb] show ?thesis by simp
  qed
next
  case (Star q)
  have "q c'" if "c' \<in> set w'" for c'
  proof -
    from that obtain j where j: "j < length w'" "w' ! j = c'"
      by (auto simp: in_set_conv_nth)
    with Star.prems(2) have "blankOf ok (w ! j) c'" "j < length w"
      by (auto simp: list_all2_conv_all_nth)
    moreover from this Star.prems(1) have "q (w ! j)"
      by (simp add: list_all_length)
    ultimately show ?thesis
      using Star.prems(3) by (auto simp: blankOf_def)
  qed
  then show ?case by (simp add: list_all_iff)
next
  case (LazyStar q)
  have "q c'" if "c' \<in> set w'" for c'
  proof -
    from that obtain j where j: "j < length w'" "w' ! j = c'"
      by (auto simp: in_set_conv_nth)
    with LazyStar.prems(2) have "blankOf ok (w ! j) c'" "j < length w"
      by (auto simp: list_all2_conv_all_nth)
    moreover from this LazyStar.prems(1) have "q (w ! j)"
      by (simp add: list_all_length)
    ultimately show ?thesis
      using LazyStar.prems(3) by (auto simp: blankOf_def)
  qed
  then show ?case by (simp add: list_all_iff)
qed

lemma matcher_stable:
  assumes m: "matcherOf p F i \<noteq> None" and i: "i \<le> length F"
    and b: "blankedTo ok F T"
    and c: "list_all (\<lambda>q. q SPACE \<longrightarrow> (\<forall>c'. ok c' \<longrightarrow> q c')) (classes p)"
  shows "matcherOf p T i \<noteq> None"
proof -
  from m obtain n where n: "matcherOf p F i = Some n" by auto
  from matcherOf_sound [OF n i] have le: "i + n \<le> length F"
    and l: "language p (substring F i (i + n))" by simp_all
  from b have len: "length F = length T"
    by (simp add: blankedTo_def list_all2_lengthD)
  from b have "list_all2 (blankOf ok) (take n (drop i F)) (take n (drop i T))"
    unfolding blankedTo_def by (intro list_all2_takeI list_all2_dropI)
  then have "list_all2 (blankOf ok) (substring F i (i + n)) (substring T i (i + n))"
    by (simp add: substring_def)
  from lang_mono [OF l this c] have "language p (substring T i (i + n))" .
  moreover have "drop i T = substring T i (i + n) @ drop n (drop i T)"
    unfolding substring_def by (simp only: add_diff_cancel_left' append_take_drop_id)
  ultimately show ?thesis
    by (rule matcherOf_complete [rotated])
qed

subsection \<open>What the scan of a global expression leaves unmatched\<close>

lemma exec_None_all:
  "RegExpBuiltinExec R S li = None \<Longrightarrow> \<not> sticky R \<Longrightarrow> \<not> unicode R \<Longrightarrow>
   li \<le> i \<Longrightarrow> i \<le> length S \<Longrightarrow> matcher R S i = None"
proof (induction R S li rule: RegExpBuiltinExec.induct)
  case (1 R S li)
  from "1.prems"(4,5) have le: "\<not> li > length S" by simp
  with "1.prems"(1,2) have none: "matcher R S li = None"
    and rec: "RegExpBuiltinExec R S (AdvanceStringIndex S li (unicode R)) = None"
    by (auto simp: RegExpBuiltinExec.simps [of R S li] split: option.splits)
  show ?case
  proof (cases "i = li")
    case True
    with none show ?thesis by simp
  next
    case False
    with "1.prems"(3,4) have "AdvanceStringIndex S li (unicode R) \<le> i"
      by (simp add: AdvanceStringIndex_def)
    from "1.IH" [OF le none "1.prems"(2) rec "1.prems"(2,3) this "1.prems"(5)]
    show ?thesis .
  qed
qed

lemma exec_Some_skips:
  "RegExpBuiltinExec R S li = Some (idx, m) \<Longrightarrow> \<not> sticky R \<Longrightarrow> \<not> unicode R \<Longrightarrow>
   li \<le> i \<Longrightarrow> i < idx \<Longrightarrow> matcher R S i = None"
proof (induction R S li rule: RegExpBuiltinExec.induct)
  case (1 R S li)
  show ?case
  proof (cases "matcher R S li")
    case (Some n)
    with "1.prems"(1) have "idx = li"
      by (auto simp: RegExpBuiltinExec.simps [of R S li] split: if_splits)
    with "1.prems"(4,5) show ?thesis by simp
  next
    case None
    with "1.prems"(1,2) have le: "\<not> li > length S"
      and rec: "RegExpBuiltinExec R S (AdvanceStringIndex S li (unicode R)) = Some (idx, m)"
      by (auto simp: RegExpBuiltinExec.simps [of R S li] split: if_splits)
    show ?thesis
    proof (cases "i = li")
      case True
      with None show ?thesis by simp
    next
      case False
      with "1.prems"(3,4) have "AdvanceStringIndex S li (unicode R) \<le> i"
        by (simp add: AdvanceStringIndex_def)
      from "1.IH" [OF le None "1.prems"(2) rec "1.prems"(2,3) this "1.prems"(5)]
      show ?thesis .
    qed
  qed
qed

lemma exec_None_intro:
  "(\<And>i. li \<le> i \<Longrightarrow> i \<le> length S \<Longrightarrow> matcher R S i = None) \<Longrightarrow>
     RegExpBuiltinExec R S li = None"
proof (induction R S li rule: RegExpBuiltinExec.induct)
  case (1 R S li)
  show ?case
  proof (cases "li > length S")
    case True
    then show ?thesis by (simp add: RegExpBuiltinExec.simps [of R S li])
  next
    case False
    then have none: "matcher R S li = None"
      using "1.prems" [of li] by simp
    show ?thesis
    proof (cases "sticky R")
      case True
      with False none show ?thesis by (simp add: RegExpBuiltinExec.simps [of R S li])
    next
      case ns: False
      have "RegExpBuiltinExec R S (AdvanceStringIndex S li (unicode R)) = None"
      proof (rule "1.IH" [OF False none ns])
        fix i assume "AdvanceStringIndex S li (unicode R) \<le> i" "i \<le> length S"
        moreover have "li \<le> AdvanceStringIndex S li (unicode R)"
          by (simp add: AdvanceStringIndex_def)
        ultimately show "matcher R S i = None"
          using "1.prems" [of i] by simp
      qed
      with False none ns show ?thesis by (simp add: RegExpBuiltinExec.simps [of R S li])
    qed
  qed
qed

lemma collect_complete:
  "\<not> covered (collectMatches R S li) i \<Longrightarrow> global R \<Longrightarrow> \<not> sticky R \<Longrightarrow> \<not> unicode R \<Longrightarrow>
   (\<And>i n. matcher R S i = Some n \<Longrightarrow> i \<le> length S \<Longrightarrow> substring S i (i + n) \<noteq> []) \<Longrightarrow>
   li \<le> i \<Longrightarrow> i \<le> length S \<Longrightarrow> matcher R S i = None"
proof (induction R S li rule: collectMatches.induct)
  case (1 R S li)
  show ?case
  proof (cases "RegExpBuiltinExec R S li")
    case None
    from exec_None_all [OF None "1.prems"(3,4,6,7)] show ?thesis .
  next
    case (Some x)
    obtain idx m where x: "x = (idx, m)" by (cases x)
    note ex = Some [unfolded x]
    from exec_result [OF ex] obtain n where
      b: "li \<le> idx" "idx \<le> length S" and mn: "matcher R S idx = Some n"
      and m: "m = substring S idx (idx + n)"
      by blast
    from "1.prems"(5) [OF mn b(2)] m have ne: "m \<noteq> []" by simp
    let ?rest = "collectMatches R S (idx + length m)"
    have cm: "collectMatches R S li = (idx, m) # ?rest"
      using ex "1.prems"(2) ne by (simp add: collectMatches.simps [of R S li])
    from "1.prems"(1) have nc: "\<not> (idx \<le> i \<and> i < idx + length m)" and ncr: "\<not> covered ?rest i"
      by (simp_all add: cm covered_def)
    show ?thesis
    proof (cases "i < idx")
      case True
      from exec_Some_skips [OF ex "1.prems"(3,4,6) True] show ?thesis .
    next
      case False
      with nc have ge: "idx + length m \<le> i" by simp
      have ncr': "\<not> covered (collectMatches R S
          (if m = [] then AdvanceStringIndex S (idx + length m) (unicode R)
           else idx + length m)) i"
        using ncr ne by simp
      have ge': "(if m = [] then AdvanceStringIndex S (idx + length m) (unicode R)
           else idx + length m) \<le> i"
        using ge ne by simp
      from "1.IH" [OF ex refl "1.prems"(2) ncr' "1.prems"(2,3,4,5) ge' "1.prems"(7)]
      show ?thesis .
    qed
  qed
qed

lemma no_match_identity:
  assumes "\<And>i. i \<le> length S \<Longrightarrow> matcher R S i = None"
  shows "replaceWithSpaces S R = S"
proof -
  have "RegExpBuiltinExec R S (startIndex R) = None"
    by (rule exec_None_intro) (use assms in simp)
  then have "allMatches R S = []"
    by (simp add: allMatches_def collectMatches.simps [of R S "startIndex R"])
  then show ?thesis
    by (simp add: replaceWithSpaces_def String_replace_def)
qed

lemma blankedTo_length: "blankedTo ok F T \<Longrightarrow> length F = length T"
  by (simp add: blankedTo_def list_all2_lengthD)

lemma blankedTo_nth:
  "blankedTo ok F T \<Longrightarrow> j < length T \<Longrightarrow> F ! j = T ! j \<or> (F ! j = SPACE \<and> ok (T ! j))"
  by (auto simp: blankedTo_def list_all2_conv_all_nth blankOf_def)

lemma blankedToI:
  "length F = length T \<Longrightarrow>
   (\<And>j. j < length T \<Longrightarrow> F ! j = T ! j \<or> (F ! j = SPACE \<and> ok (T ! j))) \<Longrightarrow>
     blankedTo ok F T"
  by (auto simp: blankedTo_def list_all2_conv_all_nth blankOf_def)

lemma blankedTo_trans:
  assumes "blankedTo ok F T" "blankedTo ok T U"
  shows "blankedTo ok F U"
proof (rule blankedToI)
  show "length F = length U"
    using assms by (simp add: blankedTo_length)
next
  fix j assume j: "j < length U"
  then have "j < length T" using assms(2) by (simp add: blankedTo_length)
  from blankedTo_nth [OF assms(1) this] blankedTo_nth [OF assms(2) j]
  show "F ! j = U ! j \<or> (F ! j = SPACE \<and> ok (U ! j))"
    by auto
qed

lemma blankedTo_weaken:
  "blankedTo ok F T \<Longrightarrow> (\<And>c. ok c \<Longrightarrow> ok' c) \<Longrightarrow> blankedTo ok' F T"
  by (rule blankedToI) (auto simp: blankedTo_length dest: blankedTo_nth)

lemma tabs_blankedTo: "ok TAB \<Longrightarrow> blankedTo ok (tabsToSpaces T) T"
  by (rule blankedToI) (auto simp: tabsToSpaces_def)

lemma inSpan_class:
  assumes "inSpan (literal_g p) T j"
  shows "\<exists>q \<in> set (classes p). q (T ! j)"
proof -
  let ?R = "literal_g p"
  from assms obtain i m where mem: "(i, m) \<in> set (allMatches ?R T)"
    and j: "i \<le> j" "j < i + length m"
    by (auto simp: inSpan_def covered_def list_ex_iff)
  have "\<exists>n. matcher ?R T i = Some n \<and> m = substring T i (i + n) \<and> i \<le> length T"
    using mem unfolding allMatches_def
    by (rule collectMatches_all) (use exec_result in blast)
  then obtain n where n: "matcherOf p T i = Some n" and m: "m = substring T i (i + n)"
    and i: "i \<le> length T"
    by (auto simp: literal_g_def)
  from matcherOf_sound [OF n i] m have b: "i + n \<le> length T" and l: "language p m"
    by simp_all
  from b m have lm: "length m = n" by (simp add: substring_def)
  have "m ! (j - i) = T ! j"
    using j b lm by (simp add: m substring_def)
  moreover have "m ! (j - i) \<in> set m"
    using j by simp
  ultimately have "T ! j \<in> set m" by simp
  with l show ?thesis by (rule lang_chars)
qed

lemma rws_blankedTo:
  assumes "\<And>q c. q \<in> set (classes p) \<Longrightarrow> q c \<Longrightarrow> ok c"
  shows "blankedTo ok (replaceWithSpaces T (literal_g p)) T"
proof (rule blankedToI)
  show "length (replaceWithSpaces T (literal_g p)) = length T"
    by (rule replaceWithSpaces_length)
next
  fix j assume j: "j < length T"
  show "replaceWithSpaces T (literal_g p) ! j = T ! j \<or>
        (replaceWithSpaces T (literal_g p) ! j = SPACE \<and> ok (T ! j))"
  proof (cases "inSpan (literal_g p) T j")
    case True
    from inSpan_class [OF True] assms have "ok (T ! j)" by blast
    with True j show ?thesis by (simp add: replaceWithSpaces_nth)
  next
    case False
    with j show ?thesis by (simp add: replaceWithSpaces_nth)
  qed
qed

lemma match_nonblank:
  assumes n: "matcherOf p S i = Some n" and i: "i \<le> length S"
    and nn: "\<not> nullable p" and f: "list_all (\<lambda>q. \<not> q SPACE) (firsts p)"
  shows "i < length S \<and> S ! i \<noteq> SPACE \<and> substring S i (i + n) \<noteq> []"
proof -
  from matcherOf_sound [OF n i] have b: "i + n \<le> length S"
    and l: "language p (substring S i (i + n))" by simp_all
  from lang_first [OF l] nn obtain c v q where
    w: "substring S i (i + n) = c # v" and q: "q \<in> set (firsts p)" "q c"
    by auto
  from q f have c: "c \<noteq> SPACE" by (auto simp: list_all_iff)
  from w have "0 < n" by (cases n) (auto simp: substring_def)
  with b have iS: "i < length S" by simp
  from w have "substring S i (i + n) ! 0 = c" by simp
  with iS \<open>0 < n\<close> have "S ! i = c" by (simp add: substring_def)
  with c iS w show ?thesis by simp
qed

lemma no_rematch:
  assumes nn: "\<not> nullable p" and f: "list_all (\<lambda>q. \<not> q SPACE) (firsts p)"
    and b: "blankedTo ok F (replaceWithSpaces T (literal_g p))"
    and st: "\<And>i. i \<le> length F \<Longrightarrow> matcherOf p F i \<noteq> None \<Longrightarrow> matcherOf p T i \<noteq> None"
    and i: "i \<le> length F"
  shows "matcher (literal_g p) F i = None"
proof (rule ccontr)
  let ?R = "literal_g p"
  assume "matcher ?R F i \<noteq> None"
  then obtain n where n: "matcherOf p F i = Some n"
    by (auto simp: literal_g_def)
  from match_nonblank [OF n i nn f] have iF: "i < length F" and ns: "F ! i \<noteq> SPACE"
    by simp_all
  have len: "length F = length T"
    using b by (simp add: blankedTo_length replaceWithSpaces_length)
  from st [OF i] n have mT: "matcher ?R T i \<noteq> None"
    by (simp add: literal_g_def)
  have "inSpan ?R T i"
  proof (rule ccontr)
    assume "\<not> inSpan ?R T i"
    then have nc: "\<not> covered (collectMatches ?R T 0) i"
      by (simp add: inSpan_def allMatches_def startIndex_def literal_g_def)
    have "matcher ?R T i = None"
    proof (rule collect_complete [OF nc])
      show "global ?R" "\<not> sticky ?R" "\<not> unicode ?R"
        by (simp_all add: literal_g_def)
    next
      fix i' n' assume "matcher ?R T i' = Some n'" "i' \<le> length T"
      then show "substring T i' (i' + n') \<noteq> []"
        using match_nonblank [of p T i' n', OF _ _ nn f] by (simp add: literal_g_def)
    next
      show "0 \<le> i" by simp
    next
      show "i \<le> length T" using i len by simp
    qed
    with mT show False by simp
  qed
  then have "replaceWithSpaces T ?R ! i = SPACE"
    using iF len by (simp add: replaceWithSpaces_nth)
  moreover have "i < length (replaceWithSpaces T ?R)"
    using iF len by (simp add: replaceWithSpaces_length)
  ultimately have "F ! i = SPACE"
    using blankedTo_nth [OF b, of i] by auto
  with ns show False by simp
qed

subsection \<open>The built-in patterns\<close>

lemmas rx_defs = rx_frontMatter_def rx_nbsp_def rx_citation_def rx_attribute_def
  rx_fencedCode_def rx_inlineCode_def rx_fileLink_def rx_url_def rx_email_def
  oneOrMore_def js_def

lemmas cls_defs = lit_def lit_i_def cls_any_def cls_dot_def cls_S_def cls_s_def cls_alnum_def
  cls_upper_def cls_lower_def cls_d_def isWhiteSpace_def isLineTerminator_def

lemma builtin_not_nullable:
  "\<not> nullable rx_frontMatter" "\<not> nullable rx_nbsp" "\<not> nullable rx_citation"
  "\<not> nullable rx_attribute" "\<not> nullable rx_fencedCode" "\<not> nullable rx_inlineCode"
  "\<not> nullable rx_fileLink" "\<not> nullable rx_url" "\<not> nullable rx_email"
  by (simp_all add: rx_defs)

lemma builtin_firsts:
  "list_all (\<lambda>q. \<not> q SPACE) (firsts rx_frontMatter)"
  "list_all (\<lambda>q. \<not> q SPACE) (firsts rx_nbsp)"
  "list_all (\<lambda>q. \<not> q SPACE) (firsts rx_citation)"
  "list_all (\<lambda>q. \<not> q SPACE) (firsts rx_attribute)"
  "list_all (\<lambda>q. \<not> q SPACE) (firsts rx_fencedCode)"
  "list_all (\<lambda>q. \<not> q SPACE) (firsts rx_inlineCode)"
  "list_all (\<lambda>q. \<not> q SPACE) (firsts rx_fileLink)"
  "list_all (\<lambda>q. \<not> q SPACE) (firsts rx_url)"
  "list_all (\<lambda>q. \<not> q SPACE) (firsts rx_email)"
  by (simp_all add: rx_defs cls_defs)

lemma builtin_closed:
  "list_all (\<lambda>q. q SPACE \<longrightarrow> (\<forall>c'. True \<longrightarrow> q c')) (classes rx_frontMatter)"
  "list_all (\<lambda>q. q SPACE \<longrightarrow> (\<forall>c'. True \<longrightarrow> q c')) (classes rx_nbsp)"
  "list_all (\<lambda>q. q SPACE \<longrightarrow> (\<forall>c'. True \<longrightarrow> q c')) (classes rx_citation)"
  "list_all (\<lambda>q. q SPACE \<longrightarrow> (\<forall>c'. True \<longrightarrow> q c')) (classes rx_attribute)"
  "list_all (\<lambda>q. q SPACE \<longrightarrow> (\<forall>c'. True \<longrightarrow> q c')) (classes rx_fencedCode)"
  "list_all (\<lambda>q. q SPACE \<longrightarrow> (\<forall>c'. True \<longrightarrow> q c')) (classes rx_url)"
  "list_all (\<lambda>q. q SPACE \<longrightarrow> (\<forall>c'. True \<longrightarrow> q c')) (classes rx_email)"
  by (auto simp: rx_defs cls_defs)

lemma fileLink_closed:
  "list_all (\<lambda>q. q SPACE \<longrightarrow> (\<forall>c'. \<not> isLineTerminator c' \<longrightarrow> q c')) (classes rx_fileLink)"
  by (simp add: rx_defs lit_def lit_i_def cls_dot_def)

lemma no_lineTerminator_classes:
  "q \<in> set (classes rx_fileLink) \<Longrightarrow> q c \<Longrightarrow> \<not> isLineTerminator c"
  "q \<in> set (classes rx_url) \<Longrightarrow> q c \<Longrightarrow> \<not> isLineTerminator c"
  "q \<in> set (classes rx_email) \<Longrightarrow> q c \<Longrightarrow> \<not> isLineTerminator c"
  by (auto simp: rx_defs cls_defs)

lemma hasDoubleBacktick_nth:
  "hasDoubleBacktick S \<longleftrightarrow>
     (\<exists>j. Suc j < length S \<and> S ! j = BACKTICK \<and> S ! Suc j = BACKTICK)"
proof (induction S rule: hasDoubleBacktick.induct)
  case (1 c d rest)
  show ?case
  proof
    assume "hasDoubleBacktick (c # d # rest)"
    then consider "c = BACKTICK \<and> d = BACKTICK" | "hasDoubleBacktick (d # rest)" by auto
    then show "\<exists>j. Suc j < length (c # d # rest) \<and> (c # d # rest) ! j = BACKTICK \<and>
        (c # d # rest) ! Suc j = BACKTICK"
    proof cases
      case 1
      then have "Suc 0 < length (c # d # rest) \<and> (c # d # rest) ! 0 = BACKTICK \<and>
        (c # d # rest) ! Suc 0 = BACKTICK" by simp
      then show ?thesis by blast
    next
      case 2
      with "1.IH" obtain j where "Suc j < length (d # rest)" "(d # rest) ! j = BACKTICK"
        "(d # rest) ! Suc j = BACKTICK" by blast
      then have "Suc (Suc j) < length (c # d # rest) \<and> (c # d # rest) ! Suc j = BACKTICK \<and>
        (c # d # rest) ! Suc (Suc j) = BACKTICK" by simp
      then show ?thesis by blast
    qed
  next
    assume "\<exists>j. Suc j < length (c # d # rest) \<and> (c # d # rest) ! j = BACKTICK \<and>
        (c # d # rest) ! Suc j = BACKTICK"
    then obtain j where j: "Suc j < length (c # d # rest)" "(c # d # rest) ! j = BACKTICK"
        "(c # d # rest) ! Suc j = BACKTICK" by blast
    show "hasDoubleBacktick (c # d # rest)"
    proof (cases j)
      case 0
      with j show ?thesis by simp
    next
      case (Suc j')
      with j have "Suc j' < length (d # rest) \<and> (d # rest) ! j' = BACKTICK \<and>
        (d # rest) ! Suc j' = BACKTICK" by simp
      then have "hasDoubleBacktick (d # rest)" using "1.IH" by blast
      then show ?thesis by simp
    qed
  qed
qed simp_all

lemma blankedTo_no_double:
  assumes "blankedTo ok F T" "\<not> hasDoubleBacktick T"
  shows "\<not> hasDoubleBacktick F"
proof
  assume "hasDoubleBacktick F"
  then obtain j where j: "Suc j < length F" "F ! j = BACKTICK" "F ! Suc j = BACKTICK"
    by (auto simp: hasDoubleBacktick_nth)
  from assms(1) have len: "length F = length T" by (rule blankedTo_length)
  from blankedTo_nth [OF assms(1), of j] blankedTo_nth [OF assms(1), of "Suc j"] j len
  have "T ! j = BACKTICK" "T ! Suc j = BACKTICK" by auto
  with j(1) len have "hasDoubleBacktick T"
    by (auto simp: hasDoubleBacktick_nth)
  with assms(2) show False by simp
qed

lemma lang_Chr: "language (Chr q) w \<longleftrightarrow> (\<exists>c. w = [c] \<and> q c)"
  by (auto split: list.splits)

lemma lang_inlineCode:
  "language rx_inlineCode w \<longleftrightarrow>
     (\<exists>c mid. w = BACKTICK # c # mid @ [BACKTICK] \<and> c \<noteq> BACKTICK \<and>
        list_all (\<lambda>c. c \<noteq> BACKTICK) mid)"
proof -
  have "language rx_inlineCode w \<longleftrightarrow>
      (\<exists>u v. w = u @ v \<and> u = [BACKTICK] \<and>
         (\<exists>x y. v = x @ y \<and>
            (\<exists>a mid. x = a @ mid \<and> (\<exists>c. a = [c] \<and> c \<noteq> BACKTICK) \<and>
               list_all (\<lambda>c. c \<noteq> BACKTICK) mid) \<and>
            y = [BACKTICK]))"
    by (simp add: rx_inlineCode_def oneOrMore_def lang_Chr lit_def del: language.simps(1))
  also have "\<dots> \<longleftrightarrow> (\<exists>c mid. w = BACKTICK # c # mid @ [BACKTICK] \<and> c \<noteq> BACKTICK \<and>
        list_all (\<lambda>c. c \<noteq> BACKTICK) mid)"
  proof (intro iffI)
    assume "\<exists>c mid. w = BACKTICK # c # mid @ [BACKTICK] \<and> c \<noteq> BACKTICK \<and>
        list_all (\<lambda>c. c \<noteq> BACKTICK) mid"
    then obtain c mid where w: "w = BACKTICK # c # mid @ [BACKTICK]" and c: "c \<noteq> BACKTICK"
      and mid: "list_all (\<lambda>c. c \<noteq> BACKTICK) mid" by blast
    have "c # mid = [c] @ mid \<and> (\<exists>c'. [c] = [c'] \<and> c' \<noteq> BACKTICK) \<and>
        list_all (\<lambda>c. c \<noteq> BACKTICK) mid"
      using c mid by simp
    then have x: "\<exists>a mid'. c # mid = a @ mid' \<and> (\<exists>c'. a = [c'] \<and> c' \<noteq> BACKTICK) \<and>
        list_all (\<lambda>c. c \<noteq> BACKTICK) mid'"
      by blast
    have "(c # mid) @ [BACKTICK] = (c # mid) @ [BACKTICK] \<and>
        (\<exists>a mid'. c # mid = a @ mid' \<and> (\<exists>c'. a = [c'] \<and> c' \<noteq> BACKTICK) \<and>
           list_all (\<lambda>c. c \<noteq> BACKTICK) mid') \<and> [BACKTICK] = [BACKTICK]"
      using x by simp
    then have y: "\<exists>x y. (c # mid) @ [BACKTICK] = x @ y \<and>
        (\<exists>a mid'. x = a @ mid' \<and> (\<exists>c'. a = [c'] \<and> c' \<noteq> BACKTICK) \<and>
           list_all (\<lambda>c. c \<noteq> BACKTICK) mid') \<and> y = [BACKTICK]"
      by blast
    have "w = [BACKTICK] @ ((c # mid) @ [BACKTICK])"
      by (simp add: w)
    with y show "\<exists>u v. w = u @ v \<and> u = [BACKTICK] \<and>
         (\<exists>x y. v = x @ y \<and>
            (\<exists>a mid. x = a @ mid \<and> (\<exists>c. a = [c] \<and> c \<noteq> BACKTICK) \<and>
               list_all (\<lambda>c. c \<noteq> BACKTICK) mid) \<and>
            y = [BACKTICK])"
      by blast
  qed auto
  finally show ?thesis .
qed

lemma inlineCode_stable:
  assumes b: "blankedTo ok F T" and nd: "\<not> hasDoubleBacktick T"
    and m: "matcherOf rx_inlineCode F i \<noteq> None" and i: "i \<le> length F"
  shows "matcherOf rx_inlineCode T i \<noteq> None"
proof -
  let ?nb = "\<lambda>c :: cu. c \<noteq> BACKTICK"
  from m obtain n where n: "matcherOf rx_inlineCode F i = Some n" by auto
  from matcherOf_sound [OF n i] have le: "i + n \<le> length F"
    and l: "language rx_inlineCode (substring F i (i + n))" by simp_all
  from l obtain c mid where w: "substring F i (i + n) = BACKTICK # c # mid @ [BACKTICK]"
    by (auto simp: lang_inlineCode)
  have "length (substring F i (i + n)) = n"
    using le by (simp add: substring_def)
  with w have nlen: "n = 3 + length mid" by simp
  have nth: "(BACKTICK # c # mid @ [BACKTICK]) ! k = F ! (i + k)" if "k < n" for k
  proof -
    have "substring F i (i + n) ! k = F ! (i + k)"
      using that le by (simp add: substring_def)
    then show ?thesis by (simp only: w)
  qed
  have "0 < n" using nlen by simp
  from nth [OF this] have F0: "F ! i = BACKTICK"
    by simp
  have "2 + length mid < n" using nlen by simp
  from nth [OF this] have F2: "F ! (i + (2 + length mid)) = BACKTICK"
    by (simp add: nth_append)
  from b have len: "length F = length T" by (rule blankedTo_length)
  have iT: "i + (2 + length mid) < length T"
    using le nlen len by simp
  have T0: "T ! i = BACKTICK"
    using blankedTo_nth [OF b, of i] F0 iT by auto
  have T2: "T ! (i + (2 + length mid)) = BACKTICK"
    using blankedTo_nth [OF b iT] F2 by auto
  have T1: "T ! Suc i \<noteq> BACKTICK"
  proof
    assume "T ! Suc i = BACKTICK"
    with T0 iT have "hasDoubleBacktick T"
      unfolding hasDoubleBacktick_nth by (intro exI [of _ i]) simp
    with nd show False by simp
  qed
  let ?rest = "drop (i + 2) T"
  have "length mid < length ?rest" using iT by simp
  moreover have "?rest ! length mid = BACKTICK"
    using T2 iT by (simp add: add.commute add.left_commute)
  ultimately have "BACKTICK \<in> set ?rest"
    by (metis nth_mem)
  then have dne: "dropWhile ?nb ?rest \<noteq> []"
    by auto
  then have "\<not> ?nb (hd (dropWhile ?nb ?rest))"
    by (rule hd_dropWhile)
  with dne have dw: "dropWhile ?nb ?rest = BACKTICK # tl (dropWhile ?nb ?rest)"
    by (cases "dropWhile ?nb ?rest") auto
  have "?rest = takeWhile ?nb ?rest @ dropWhile ?nb ?rest"
    by simp
  with dw have rest: "?rest = takeWhile ?nb ?rest @ BACKTICK # tl (dropWhile ?nb ?rest)"
    by simp
  have "drop i T = T ! i # T ! Suc i # ?rest"
    using iT by (simp add: Cons_nth_drop_Suc)
  with rest T0 have d: "drop i T =
      (BACKTICK # T ! Suc i # takeWhile ?nb ?rest @ [BACKTICK]) @ tl (dropWhile ?nb ?rest)"
    by (metis append_Cons append_Nil append_assoc)
  have "list_all ?nb (takeWhile ?nb ?rest)"
    by (auto simp: list_all_iff dest: set_takeWhileD)
  with T1 have "language rx_inlineCode (BACKTICK # T ! Suc i # takeWhile ?nb ?rest @ [BACKTICK])"
    unfolding lang_inlineCode by blast
  with d show ?thesis by (rule matcherOf_complete)
qed

lemma rerun_identity:
  assumes "\<not> nullable p" and "list_all (\<lambda>q. \<not> q SPACE) (firsts p)"
    and "blankedTo ok F (replaceWithSpaces T (literal_g p))"
    and "\<And>i. i \<le> length F \<Longrightarrow> matcherOf p F i \<noteq> None \<Longrightarrow> matcherOf p T i \<noteq> None"
  shows "replaceWithSpaces F (literal_g p) = F"
  by (rule no_match_identity) (rule no_rematch [OF assms])

lemma rerun_identity_closed:
  assumes "\<not> nullable p" and "list_all (\<lambda>q. \<not> q SPACE) (firsts p)"
    and "blankedTo ok' F (replaceWithSpaces T (literal_g p))"
    and "blankedTo ok F T"
    and "list_all (\<lambda>q. q SPACE \<longrightarrow> (\<forall>c'. ok c' \<longrightarrow> q c')) (classes p)"
  shows "replaceWithSpaces F (literal_g p) = F"
  using assms(1-3)
proof (rule rerun_identity)
  fix i assume i: "i \<le> length F" and m: "matcherOf p F i \<noteq> None"
  show "matcherOf p T i \<noteq> None"
    by (rule matcher_stable [OF m i assms(4,5)])
qed

lemma tabsToSpaces_idem: "tabsToSpaces (tabsToSpaces S) = tabsToSpaces S"
  by (simp add: tabsToSpaces_def)

lemma beforeInlineCode_blankedTo: "blankedTo (\<lambda>c. True) (beforeInlineCode text) text"
proof -
  have s: "blankedTo (\<lambda>c. True) (replaceWithSpaces T (literal_g p)) T" for T p
    by (rule rws_blankedTo) simp
  have "beforeInlineCode text =
      replaceWithSpaces (replaceWithSpaces (replaceWithSpaces (replaceWithSpaces
        (replaceWithSpaces text (literal_g rx_frontMatter)) (literal_g rx_nbsp))
        (literal_g rx_citation)) (literal_g rx_attribute)) (literal_g rx_fencedCode)"
    by (simp add: beforeInlineCode_def DEFAULT_REMOVAL_PATTERNS_def)
  then show ?thesis
    using blankedTo_trans [OF s blankedTo_trans [OF s blankedTo_trans [OF s
            blankedTo_trans [OF s s]]]]
    by (simp only:)
qed

lemma no_double_beforeInlineCode:
  "\<not> hasDoubleBacktick text \<Longrightarrow> \<not> hasDoubleBacktick (beforeInlineCode text)"
  using beforeInlineCode_blankedTo by (rule blankedTo_no_double)

text \<open>
  Claim C8, amended. If no two backticks are adjacent in the text once the five rules
  before the rule for inline code have been applied (front matter, \<^verbatim>\<open>&nbsp;\<close>, citations,
  attribute braces, fenced code), and so in every text without two adjacent backticks,
  sanitizing the sanitized text again with the built-in patterns changes nothing.
\<close>

theorem sanitize_twice:
  assumes nd: "\<not> hasDoubleBacktick (beforeInlineCode text)"
  shows "sanitizeText (sanitizeText text \<lparr>removalPatterns = None, userPatterns = None\<rparr>)
           \<lparr>removalPatterns = None, userPatterns = None\<rparr> =
         sanitizeText text \<lparr>removalPatterns = None, userPatterns = None\<rparr>"
proof -
  let ?any = "\<lambda>c :: cu. True"
  let ?line = "\<lambda>c :: cu. \<not> isLineTerminator c"
  define T1 where "T1 = replaceWithSpaces text (literal_g rx_frontMatter)"
  define T2 where "T2 = replaceWithSpaces T1 (literal_g rx_nbsp)"
  define T3 where "T3 = replaceWithSpaces T2 (literal_g rx_citation)"
  define T4 where "T4 = replaceWithSpaces T3 (literal_g rx_attribute)"
  define T5 where "T5 = replaceWithSpaces T4 (literal_g rx_fencedCode)"
  define T6 where "T6 = replaceWithSpaces T5 (literal_g rx_inlineCode)"
  define T7 where "T7 = replaceWithSpaces T6 (literal_g rx_fileLink)"
  define T8 where "T8 = replaceWithSpaces T7 (literal_g rx_url)"
  define T9 where "T9 = replaceWithSpaces T8 (literal_g rx_email)"
  define F where "F = tabsToSpaces T9"
  have san: "sanitizeText S \<lparr>removalPatterns = None, userPatterns = None\<rparr> =
      tabsToSpaces (replaceWithSpaces (replaceWithSpaces (replaceWithSpaces (replaceWithSpaces
        (replaceWithSpaces (replaceWithSpaces (replaceWithSpaces (replaceWithSpaces
        (replaceWithSpaces S (literal_g rx_frontMatter)) (literal_g rx_nbsp))
        (literal_g rx_citation)) (literal_g rx_attribute)) (literal_g rx_fencedCode))
        (literal_g rx_inlineCode)) (literal_g rx_fileLink)) (literal_g rx_url))
        (literal_g rx_email))" for S
    by (simp add: sanitizeText_def patternsOf_def DEFAULT_REMOVAL_PATTERNS_def)
  have F: "sanitizeText text \<lparr>removalPatterns = None, userPatterns = None\<rparr> = F"
    by (simp only: san F_def T9_def T8_def T7_def T6_def T5_def T4_def T3_def T2_def T1_def)
  have s1: "blankedTo ?any T1 text" unfolding T1_def by (rule rws_blankedTo) simp
  have s2: "blankedTo ?any T2 T1" unfolding T2_def by (rule rws_blankedTo) simp
  have s3: "blankedTo ?any T3 T2" unfolding T3_def by (rule rws_blankedTo) simp
  have s4: "blankedTo ?any T4 T3" unfolding T4_def by (rule rws_blankedTo) simp
  have s5: "blankedTo ?any T5 T4" unfolding T5_def by (rule rws_blankedTo) simp
  have s6: "blankedTo ?any T6 T5" unfolding T6_def by (rule rws_blankedTo) simp
  have l7: "blankedTo ?line T7 T6" unfolding T7_def
    by (rule rws_blankedTo) (rule no_lineTerminator_classes)
  have l8: "blankedTo ?line T8 T7" unfolding T8_def
    by (rule rws_blankedTo) (rule no_lineTerminator_classes)
  have l9: "blankedTo ?line T9 T8" unfolding T9_def
    by (rule rws_blankedTo) (rule no_lineTerminator_classes)
  have lF: "blankedTo ?line F T9" unfolding F_def
    by (rule tabs_blankedTo) (simp add: isLineTerminator_def)
  have L8: "blankedTo ?line F T8" using lF l9 by (rule blankedTo_trans)
  have L7: "blankedTo ?line F T7" using L8 l8 by (rule blankedTo_trans)
  have L6: "blankedTo ?line F T6" using L7 l7 by (rule blankedTo_trans)
  have A9: "blankedTo ?any F T9" using lF by (rule blankedTo_weaken) simp
  have A8: "blankedTo ?any F T8" using L8 by (rule blankedTo_weaken) simp
  have A7: "blankedTo ?any F T7" using L7 by (rule blankedTo_weaken) simp
  have A6: "blankedTo ?any F T6" using L6 by (rule blankedTo_weaken) simp
  have A5: "blankedTo ?any F T5" using A6 s6 by (rule blankedTo_trans)
  have A4: "blankedTo ?any F T4" using A5 s5 by (rule blankedTo_trans)
  have A3: "blankedTo ?any F T3" using A4 s4 by (rule blankedTo_trans)
  have A2: "blankedTo ?any F T2" using A3 s3 by (rule blankedTo_trans)
  have A1: "blankedTo ?any F T1" using A2 s2 by (rule blankedTo_trans)
  have A0: "blankedTo ?any F text" using A1 s1 by (rule blankedTo_trans)
  have "beforeInlineCode text = T5"
    by (simp add: beforeInlineCode_def DEFAULT_REMOVAL_PATTERNS_def T5_def T4_def T3_def
          T2_def T1_def)
  with nd have nd5: "\<not> hasDoubleBacktick T5"
    by simp
  have r1: "replaceWithSpaces F (literal_g rx_frontMatter) = F"
    by (rule rerun_identity_closed [OF builtin_not_nullable(1) builtin_firsts(1)
          A1 [unfolded T1_def] A0 builtin_closed(1)])
  have r2: "replaceWithSpaces F (literal_g rx_nbsp) = F"
    by (rule rerun_identity_closed [OF builtin_not_nullable(2) builtin_firsts(2)
          A2 [unfolded T2_def] A1 builtin_closed(2)])
  have r3: "replaceWithSpaces F (literal_g rx_citation) = F"
    by (rule rerun_identity_closed [OF builtin_not_nullable(3) builtin_firsts(3)
          A3 [unfolded T3_def] A2 builtin_closed(3)])
  have r4: "replaceWithSpaces F (literal_g rx_attribute) = F"
    by (rule rerun_identity_closed [OF builtin_not_nullable(4) builtin_firsts(4)
          A4 [unfolded T4_def] A3 builtin_closed(4)])
  have r5: "replaceWithSpaces F (literal_g rx_fencedCode) = F"
    by (rule rerun_identity_closed [OF builtin_not_nullable(5) builtin_firsts(5)
          A5 [unfolded T5_def] A4 builtin_closed(5)])
  have r6: "replaceWithSpaces F (literal_g rx_inlineCode) = F"
  proof (rule rerun_identity [OF builtin_not_nullable(6) builtin_firsts(6) A6 [unfolded T6_def]])
    fix i assume i: "i \<le> length F" and m: "matcherOf rx_inlineCode F i \<noteq> None"
    show "matcherOf rx_inlineCode T5 i \<noteq> None"
      by (rule inlineCode_stable [OF A5 nd5 m i])
  qed
  have r7: "replaceWithSpaces F (literal_g rx_fileLink) = F"
    by (rule rerun_identity_closed [OF builtin_not_nullable(7) builtin_firsts(7)
          A7 [unfolded T7_def] L6 fileLink_closed])
  have r8: "replaceWithSpaces F (literal_g rx_url) = F"
    by (rule rerun_identity_closed [OF builtin_not_nullable(8) builtin_firsts(8)
          A8 [unfolded T8_def] A7 builtin_closed(6)])
  have r9: "replaceWithSpaces F (literal_g rx_email) = F"
    by (rule rerun_identity_closed [OF builtin_not_nullable(9) builtin_firsts(9)
          A9 [unfolded T9_def] A8 builtin_closed(7)])
  have "sanitizeText F \<lparr>removalPatterns = None, userPatterns = None\<rparr> = tabsToSpaces F"
    by (simp only: san r1 r2 r3 r4 r5 r6 r7 r8 r9)
  also have "\<dots> = F"
    unfolding F_def by (rule tabsToSpaces_idem)
  finally show ?thesis by (simp only: F)
qed


theorem sanitize_twice_witness:
  "\<not> hasDoubleBacktick (beforeInlineCode
       [BACKTICK, BACKTICK, BACKTICK, 0x78, BACKTICK, BACKTICK, BACKTICK, SPACE,
        BACKTICK, 0x61, BACKTICK, 0x62, BACKTICK]) \<and>
   sanitizeText [BACKTICK, BACKTICK, BACKTICK, 0x78, BACKTICK, BACKTICK, BACKTICK, SPACE,
        BACKTICK, 0x61, BACKTICK, 0x62, BACKTICK]
     \<lparr>removalPatterns = None, userPatterns = None\<rparr> =
     [SPACE, SPACE, SPACE, SPACE, SPACE, SPACE, SPACE, SPACE, SPACE, SPACE, SPACE, 0x62,
      BACKTICK] \<and>
   sanitizeText [SPACE, SPACE, SPACE, SPACE, SPACE, SPACE, SPACE, SPACE, SPACE, SPACE, SPACE,
       0x62, BACKTICK]
     \<lparr>removalPatterns = None, userPatterns = None\<rparr> =
     [SPACE, SPACE, SPACE, SPACE, SPACE, SPACE, SPACE, SPACE, SPACE, SPACE, SPACE, 0x62,
      BACKTICK]"
proof -
  let ?t = "[BACKTICK, BACKTICK, BACKTICK, 0x78, BACKTICK, BACKTICK, BACKTICK, SPACE,
        BACKTICK, 0x61, BACKTICK, 0x62, BACKTICK] :: jsstring"
  let ?o = "\<lparr>removalPatterns = None, userPatterns = None\<rparr>"
  have h: "\<not> hasDoubleBacktick (beforeInlineCode ?t)"
    by code_simp
  have v: "sanitizeText ?t ?o =
     [SPACE, SPACE, SPACE, SPACE, SPACE, SPACE, SPACE, SPACE, SPACE, SPACE, SPACE, 0x62,
      BACKTICK]"
    by code_simp
  from sanitize_twice [OF h] have "sanitizeText (sanitizeText ?t ?o) ?o = sanitizeText ?t ?o" .
  then have "sanitizeText [SPACE, SPACE, SPACE, SPACE, SPACE, SPACE, SPACE, SPACE, SPACE, SPACE,
      SPACE, 0x62, BACKTICK] ?o =
     [SPACE, SPACE, SPACE, SPACE, SPACE, SPACE, SPACE, SPACE, SPACE, SPACE, SPACE, 0x62,
      BACKTICK]"
    by (simp only: v)
  with h v show ?thesis by blast
qed

text \<open>
  The claim as the specification states it fails on \<^verbatim>\<open>``a`b`\<close>: the rule for inline code
  finds no match at the first backtick, which is followed by a backtick, and blanks the
  span from the second to the third. In the result the first backtick is followed by
  spaces and \<open>b\<close>, and the second run blanks it all.
\<close>

theorem sanitize_twice_counterexample:
  "sanitizeText [BACKTICK, BACKTICK, 0x61, BACKTICK, 0x62, BACKTICK]
     \<lparr>removalPatterns = None, userPatterns = None\<rparr> =
     [BACKTICK, SPACE, SPACE, SPACE, 0x62, BACKTICK] \<and>
   sanitizeText [BACKTICK, SPACE, SPACE, SPACE, 0x62, BACKTICK]
     \<lparr>removalPatterns = None, userPatterns = None\<rparr> =
     [SPACE, SPACE, SPACE, SPACE, SPACE, SPACE]"
  by code_simp

end
